theory Spec2Isabelle
  imports Main "HOL-Library.Sublist"
begin

section \<open>Python values, errors and list primitives\<close>

text \<open>
  A \<open>Permutation\<close> of permpy is a tuple of Python integers; it is modelled as an
  \<open>int list\<close>.  Every exception the source can raise is a value of \<open>py_error\<close>,
  and a function that can raise returns \<open>py_error + 'a\<close> with \<open>Inl\<close> the exception.
\<close>

datatype py_error = AssertionError | IndexError | ValueError | TypeError

text \<open>\<open>xs[i]\<close>: negative indices count from the end, anything else out of range raises.\<close>

definition py_get :: "'a list \<Rightarrow> int \<Rightarrow> py_error + 'a" where
  "py_get xs i =
     (let n = int (length xs); j = (if i < 0 then i + n else i)
      in if 0 \<le> j \<and> j < n then Inr (xs ! nat j) else Inl IndexError)"

text \<open>\<open>xs[i] = v\<close> on a list.\<close>

definition py_set :: "'a list \<Rightarrow> int \<Rightarrow> 'a \<Rightarrow> py_error + 'a list" where
  "py_set xs i v =
     (let n = int (length xs); j = (if i < 0 then i + n else i)
      in if 0 \<le> j \<and> j < n then Inr (xs[nat j := v]) else Inl IndexError)"

text \<open>The bound of a slice \<open>xs[:i]\<close> or \<open>xs[i:]\<close>: slices clamp and never raise.\<close>

definition py_clamp :: "'a list \<Rightarrow> int \<Rightarrow> nat" where
  "py_clamp xs i =
     (let n = int (length xs) in nat (if i < 0 then max 0 (i + n) else min i n))"

definition py_slice_to :: "'a list \<Rightarrow> int \<Rightarrow> 'a list" where
  "py_slice_to xs i = take (py_clamp xs i) xs"

definition py_slice_from :: "'a list \<Rightarrow> int \<Rightarrow> 'a list" where
  "py_slice_from xs i = drop (py_clamp xs i) xs"

text \<open>\<open>xs[a:b]\<close> for non-negative bounds, as every slice of the interval engine is.\<close>

definition slice :: "'a list \<Rightarrow> nat \<Rightarrow> nat \<Rightarrow> 'a list" where
  "slice xs a b = take (b - a) (drop a xs)"

text \<open>\<open>xs.index(x)\<close>: the first position of \<open>x\<close>, \<open>ValueError\<close> when absent.\<close>

fun py_index :: "'a list \<Rightarrow> 'a \<Rightarrow> py_error + nat" where
  "py_index [] x = Inl ValueError"
| "py_index (y # ys) x =
     (if y = x then Inr 0
      else (case py_index ys x of Inl e \<Rightarrow> Inl e | Inr k \<Rightarrow> Inr (Suc k)))"

text \<open>A list comprehension whose element expression can raise.\<close>

fun py_map :: "('a \<Rightarrow> py_error + 'b) \<Rightarrow> 'a list \<Rightarrow> py_error + 'b list" where
  "py_map f [] = Inr []"
| "py_map f (x # xs) =
     (case f x of Inl e \<Rightarrow> Inl e
      | Inr y \<Rightarrow> (case py_map f xs of Inl e \<Rightarrow> Inl e | Inr ys \<Rightarrow> Inr (y # ys)))"

text \<open>The local helper \<open>swap(i, j)\<close> of \<open>ind2perm\<close> and \<open>perm2ind\<close>; both call it
  with positions inside the list only.\<close>

definition swap :: "'a list \<Rightarrow> nat \<Rightarrow> nat \<Rightarrow> 'a list" where
  "swap xs i j = (let t = xs ! i; ys = xs[i := xs ! j] in ys[j := t])"

text \<open>The decimal digits of \<open>str(p)\<close> for a non-negative integer, most significant first.\<close>

function digits_acc :: "nat \<Rightarrow> int list \<Rightarrow> int list" where
  "digits_acc k acc =
     (if k < 10 then int k # acc else digits_acc (k div 10) (int (k mod 10) # acc))"
  by pat_completeness auto
termination
  by (relation "measure (\<lambda>(k, acc). k)") auto

declare digits_acc.simps [simp del]

section \<open>Construction and standardization\<close>

text \<open>
  \<^verbatim>\<open>
  def standardize(L):
      assert len(set(L)) == len(L), 'make sure elements are distinct!'
      ordered = L[:]
      ordered.sort()
      return [ordered.index(x) for x in L]
  \<close>
\<close>

definition standardize :: "int list \<Rightarrow> py_error + int list" where
  "standardize L =
     (if card (set L) \<noteq> length L then Inl AssertionError
      else let ordered = sort L
           in py_map (\<lambda>x. case py_index ordered x of Inl e \<Rightarrow> Inl e | Inr k \<Rightarrow> Inr (int k)) L)"

text \<open>
  The first argument of the constructor: an existing Permutation, another iterable
  of integers, or an integer.  The optional second argument is \<open>None\<close> or an integer;
  \<open>if n:\<close> is true for a non-zero integer.
\<close>

datatype py_arg = PermArg "int list" | IterArg "int list" | IntArg int

definition truthy :: "int option \<Rightarrow> bool" where
  "truthy n = (case n of None \<Rightarrow> False | Some v \<Rightarrow> v \<noteq> 0)"

text \<open>The loop of \<open>ind2perm\<close> over \<open>range(n, 0, -1)\<close>, on the state \<open>(k, result)\<close>.\<close>

fun ind2perm_loop :: "nat list \<Rightarrow> int \<Rightarrow> int list \<Rightarrow> int list" where
  "ind2perm_loop [] k result = result"
| "ind2perm_loop (i # is) k result =
     (let j = k mod int i
      in ind2perm_loop is (k div int i) (swap result (i - 1) (nat j)))"

text \<open>
  \<open>Permutation.__new__\<close> and the static method \<open>ind2perm\<close> call each other.  With
  \<open>n\<close> given and \<open>p\<close> not an integer, \<open>k % i\<close> raises \<open>TypeError\<close> in the first round
  of the loop, which runs when \<open>n > 0\<close>.  \<open>str(p)\<close> of a negative integer starts
  with a sign, on which \<open>int(digit)\<close> raises \<open>ValueError\<close>.
\<close>

function Permutation_new :: "py_arg \<Rightarrow> int option \<Rightarrow> py_error + int list"
  and ind2perm :: "int \<Rightarrow> int \<Rightarrow> py_error + int list"
where
  "Permutation_new p n =
     (if truthy n then
        (case p of
           IntArg k \<Rightarrow> ind2perm k (the n)
         | PermArg t \<Rightarrow> (if the n > 0 then Inl TypeError else ind2perm 0 (the n))
         | IterArg t \<Rightarrow> (if the n > 0 then Inl TypeError else ind2perm 0 (the n)))
      else
        (case p of
           PermArg t \<Rightarrow> Inr t
         | IterArg t \<Rightarrow>
             (if length t = 0 \<and> length t > 0 then Inl ValueError else standardize t)
         | IntArg k \<Rightarrow>
             (if k < 0 then Inl ValueError else standardize (digits_acc (nat k) []))))"
| "ind2perm k n =
     Permutation_new
       (IterArg (ind2perm_loop (rev [1..<Suc (nat n)]) k (map int [0..<nat n]))) None"
  by pat_completeness auto
termination
  by (relation "measure (\<lambda>x. case x of Inl (p, n) \<Rightarrow> (if truthy n then 2 else 0) | Inr (k, n) \<Rightarrow> 1)")
     (auto simp: truthy_def)

text \<open>\<open>Permutation(L)\<close> for a list \<open>L\<close>, the call most methods end with.\<close>

abbreviation Permutation :: "int list \<Rightarrow> py_error + int list" where
  "Permutation L \<equiv> Permutation_new (IterArg L) None"

lemma Permutation_list [simp]: "Permutation L = standardize L"
  by (simp add: truthy_def)

declare Permutation_new.simps [simp del] ind2perm.simps [simp del]

text \<open>
  \<^verbatim>\<open>
  def perm2ind(self):
      q = list(self); n = self.__len__()
      result = 0; multiplier = 1
      for i in range(n-1,0,-1):
          result += q[i]*multiplier
          multiplier *= i+1
          swap(i, q.index(i))
      return result
  \<close>
\<close>

fun perm2ind_loop :: "nat list \<Rightarrow> int list \<Rightarrow> int \<Rightarrow> int \<Rightarrow> py_error + int" where
  "perm2ind_loop [] q result multiplier = Inr result"
| "perm2ind_loop (i # is) q result multiplier =
     (case py_index q (int i) of
        Inl e \<Rightarrow> Inl e
      | Inr k \<Rightarrow>
          perm2ind_loop is (swap q i k) (result + q ! i * multiplier) (multiplier * (int i + 1)))"

definition perm2ind :: "int list \<Rightarrow> py_error + int" where
  "perm2ind self = perm2ind_loop (rev [1..<length self]) self 0 1"

text \<open>The values a \<open>Permutation\<close> object can hold: each of \<open>0, ..., n-1\<close> once.\<close>

definition is_perm :: "int list \<Rightarrow> bool" where
  "is_perm p = (sort p = map int [0..<length p])"


section \<open>Sequencing of calls that can raise\<close>

definition py_bind :: "py_error + 'a \<Rightarrow> ('a \<Rightarrow> py_error + 'b) \<Rightarrow> py_error + 'b" where
  "py_bind m f = (case m of Inl e \<Rightarrow> Inl e | Inr x \<Rightarrow> f x)"

lemma py_bind_cong [fundef_cong]:
  "m = m' \<Longrightarrow> (\<And>x. m' = Inr x \<Longrightarrow> f x = f' x) \<Longrightarrow> py_bind m f = py_bind m' f'"
  by (cases m') (simp_all add: py_bind_def)

lemma py_bind_Inr [simp]: "py_bind (Inr x) f = f x"
  by (simp add: py_bind_def)

lemma py_bind_Inl [simp]: "py_bind (Inl e) f = Inl e"
  by (simp add: py_bind_def)

text \<open>\<open>xs[i] -= 1\<close>\<close>

definition py_decr :: "int list \<Rightarrow> int \<Rightarrow> py_error + int list" where
  "py_decr xs i = py_bind (py_get xs i) (\<lambda>c. py_set xs i (c - 1))"

text \<open>\<open>del xs[i]\<close>\<close>

definition py_del :: "'a list \<Rightarrow> int \<Rightarrow> py_error + 'a list" where
  "py_del xs i =
     (let n = int (length xs); j = (if i < 0 then i + n else i)
      in if 0 \<le> j \<and> j < n then Inr (take (nat j) xs @ drop (Suc (nat j)) xs)
         else Inl IndexError)"

section \<open>Permutation algebra\<close>

text \<open>
  \<^verbatim>\<open>
  def delete(self, idx):
      p = list(self)
      del p[idx]
      return Permutation(p)
  \<close>
\<close>

definition delete :: "int list \<Rightarrow> int \<Rightarrow> py_error + int list" where
  "delete self idx = py_bind (py_del self idx) (\<lambda>p. Permutation p)"

text \<open>
  \<^verbatim>\<open>
  def insert(self,idx,val):
      p = list(self)
      for k in range(len(p)):
          if p[k] >= val:
              p[k] += 1
      p = p[:idx] + [val] + p[idx:]
      return Permutation(p)
  \<close>
\<close>

definition insert_perm :: "int list \<Rightarrow> int \<Rightarrow> int \<Rightarrow> py_error + int list" where
  "insert_perm self idx val =
     (let p = map (\<lambda>x. if x \<ge> val then x + 1 else x) self
      in Permutation (py_slice_to p idx @ [val] @ py_slice_from p idx))"

text \<open>
  \<^verbatim>\<open>
  def __mul__(self,other):
      assert len(self) == len(other)
      L = list(other)
      for i in range(len(L)):
          L[i] = self.__call__(L[i])
      return Permutation(L)
  \<close>
  \<open>self.__call__(i)\<close> is \<open>self[i]\<close>.
\<close>

definition mul :: "int list \<Rightarrow> int list \<Rightarrow> py_error + int list" where
  "mul self other =
     (if length self \<noteq> length other then Inl AssertionError
      else py_bind (py_map (\<lambda>v. py_get self v) other) (\<lambda>L. Permutation L))"

text \<open>
  The exponent of \<open>__pow__\<close> is any Python object: an integer, or something for
  which \<open>isinstance(power, int)\<close> is false.
  \<^verbatim>\<open>
  def __pow__(self, power):
      try:
          assert isinstance(power, int) and power >= 0
      except:
          err = 'Power must be a positive integer'
          raise ValueError(err)
      if power == 0:
          return Permutation(range(len(self)))
      else:
          ans = self
          for i in range(power - 1):
              ans *= self
          return ans
  \<close>
\<close>

datatype py_obj = PyInt int | PyNonInt

fun pow_loop :: "nat list \<Rightarrow> int list \<Rightarrow> int list \<Rightarrow> py_error + int list" where
  "pow_loop [] self ans = Inr ans"
| "pow_loop (i # is) self ans = py_bind (mul ans self) (\<lambda>a. pow_loop is self a)"

definition pow :: "int list \<Rightarrow> py_obj \<Rightarrow> py_error + int list" where
  "pow self exponent =
     (case exponent of
        PyNonInt \<Rightarrow> Inl ValueError
      | PyInt e \<Rightarrow>
          if \<not> e \<ge> 0 then Inl ValueError
          else if e = 0 then Permutation (map int [0..<length self])
          else pow_loop [0..<nat (e - 1)] self self)"


section \<open>Bound table and containment search\<close>

text \<open>
  \<^verbatim>\<open>
  def set_up_bounds(self):
      L = list(self); n = len(L)
      upper_bound = [-1]*n; lower_bound = [-1]*n
      for i in range(0,n):
          min_above = -1; max_below = -1
          for j in range(i+1,len(self)):
              if L[j] < L[i]:
                  if L[j] > max_below:
                      max_below = L[j]; lower_bound[i] = j
              else:
                  if L[j] < min_above or min_above == -1:
                      min_above = L[j]; upper_bound[i] = j
      return (lower_bound, upper_bound)
  \<close>
  The inner loop runs on the state \<open>(min_above, max_below, lower_bound, upper_bound)\<close>.
\<close>

fun set_up_bounds_inner ::
  "int list \<Rightarrow> nat \<Rightarrow> nat list \<Rightarrow> int \<times> int \<times> int list \<times> int list
     \<Rightarrow> int \<times> int \<times> int list \<times> int list" where
  "set_up_bounds_inner L i [] st = st"
| "set_up_bounds_inner L i (j # js) (min_above, max_below, lower_bound, upper_bound) =
     (if L ! j < L ! i then
        (if L ! j > max_below
         then set_up_bounds_inner L i js (min_above, L ! j, lower_bound[i := int j], upper_bound)
         else set_up_bounds_inner L i js (min_above, max_below, lower_bound, upper_bound))
      else
        (if L ! j < min_above \<or> min_above = - 1
         then set_up_bounds_inner L i js (L ! j, max_below, lower_bound, upper_bound[i := int j])
         else set_up_bounds_inner L i js (min_above, max_below, lower_bound, upper_bound)))"

fun set_up_bounds_outer ::
  "int list \<Rightarrow> nat list \<Rightarrow> int list \<times> int list \<Rightarrow> int list \<times> int list" where
  "set_up_bounds_outer L [] (lower_bound, upper_bound) = (lower_bound, upper_bound)"
| "set_up_bounds_outer L (i # is) (lower_bound, upper_bound) =
     (case set_up_bounds_inner L i [Suc i..<length L] (- 1, - 1, lower_bound, upper_bound) of
        (min_above, max_below, lower_bound', upper_bound') \<Rightarrow>
          set_up_bounds_outer L is (lower_bound', upper_bound'))"

definition set_up_bounds :: "int list \<Rightarrow> int list \<times> int list" where
  "set_up_bounds self =
     (let L = self; n = length L
      in set_up_bounds_outer L [0..<n] (replicate n (- 1), replicate n (- 1)))"

text \<open>
  \<^verbatim>\<open>
  def involvement_fits(self, upper_bound, lower_bound, indices, q, next):
      return (lower_bound[next] == -1 or q[indices[next]] > q[indices[lower_bound[next]]])
         and (upper_bound[next] == -1 or q[indices[next]] < q[indices[upper_bound[next]]])
  \<close>
\<close>

definition involvement_fits ::
  "int list \<Rightarrow> int list \<Rightarrow> int list \<Rightarrow> int list \<Rightarrow> int \<Rightarrow> py_error + bool" where
  "involvement_fits upper_bound lower_bound indices q next =
     py_bind (py_get lower_bound next) (\<lambda>l.
     py_bind (if l = - 1 then Inr True
              else py_bind (py_get indices next) (\<lambda>c.
                   py_bind (py_get q c) (\<lambda>v.
                   py_bind (py_get indices l) (\<lambda>cl.
                   py_bind (py_get q cl) (\<lambda>vl. Inr (v > vl)))))) (\<lambda>low.
     if \<not> low then Inr False
     else py_bind (py_get upper_bound next) (\<lambda>u.
          if u = - 1 then Inr True
          else py_bind (py_get indices next) (\<lambda>c.
               py_bind (py_get q c) (\<lambda>v.
               py_bind (py_get indices u) (\<lambda>cu.
               py_bind (py_get q cu) (\<lambda>vu. Inr (v < vu))))))))"

text \<open>
  \<^verbatim>\<open>
  def involvement_check(self, upper_bound, lower_bound, indices, q, next):
      if next < 0:
          return True
      indices[next] = indices[next+1]-1
      while indices[next] >= 0:
          if self.involvement_fits(upper_bound, lower_bound, indices, q, next) and
             self.involvement_check(upper_bound, lower_bound, indices, q, next-1):
              return True
          indices[next] -= 1
      return False
  \<close>
  The list \<open>indices\<close> is shared and mutated by every level of the recursion, so the
  model returns it next to the Boolean and each caller goes on with the list the
  callee left.  The while loop is \<open>involvement_check_while\<close>.
\<close>

function involvement_check ::
    "int list \<Rightarrow> int list \<Rightarrow> int list \<Rightarrow> int list \<Rightarrow> int \<Rightarrow> py_error + (bool \<times> int list)"
  and involvement_check_while ::
    "int list \<Rightarrow> int list \<Rightarrow> int list \<Rightarrow> int list \<Rightarrow> int \<Rightarrow> py_error + (bool \<times> int list)"
where
  "involvement_check upper_bound lower_bound indices q next =
     (if next < 0 then Inr (True, indices)
      else py_bind (py_get indices (next + 1)) (\<lambda>v.
           py_bind (py_set indices next (v - 1)) (\<lambda>indices1.
           involvement_check_while upper_bound lower_bound indices1 q next)))"
| "involvement_check_while upper_bound lower_bound indices q next =
     py_bind (py_get indices next) (\<lambda>c.
       if c \<ge> 0 then
         py_bind (involvement_fits upper_bound lower_bound indices q next) (\<lambda>fits.
           if fits then
             py_bind (involvement_check upper_bound lower_bound indices q (next - 1)) (\<lambda>r.
               if fst r then Inr (True, snd r)
               else py_bind (py_decr (snd r) next) (\<lambda>indices2.
                    involvement_check_while upper_bound lower_bound indices2 q next))
           else py_bind (py_decr indices next) (\<lambda>indices2.
                involvement_check_while upper_bound lower_bound indices2 q next))
       else Inr (False, indices))"
  by pat_completeness auto


text \<open>Termination: a call leaves alone every entry of \<open>indices\<close> to the right of
  \<open>next\<close>, so the loop variable \<open>indices[next]\<close> of the caller goes down.\<close>

lemma py_set_keeps:
  assumes "py_set xs i v = Inr ys" and "0 \<le> i"
  shows "length ys = length xs \<and> (\<forall>k. i < int k \<longrightarrow> ys ! k = xs ! k)"
  using assms by (auto simp: py_set_def Let_def split: if_splits)

lemma py_decr_keeps:
  assumes "py_decr xs i = Inr ys" and "0 \<le> i"
  shows "length ys = length xs \<and> (\<forall>k. i < int k \<longrightarrow> ys ! k = xs ! k)"
proof -
  from assms(1) obtain c where "py_set xs i (c - 1) = Inr ys"
    by (cases "py_get xs i") (auto simp: py_decr_def)
  from py_set_keeps[OF this assms(2)] show ?thesis .
qed

lemma py_decr_get:
  assumes "py_get xs i = Inr c" and "py_decr xs i = Inr ys"
  shows "py_get ys i = Inr (c - 1)"
  using assms by (auto simp: py_decr_def py_get_def py_set_def Let_def split: if_splits)

lemma py_get_eqI:
  assumes "length ys = length xs" and "0 \<le> i" and "ys ! nat i = xs ! nat i"
  shows "py_get ys i = py_get xs i"
  using assms by (simp add: py_get_def Let_def)

lemma involvement_check_keeps_partial:
  "involvement_check_involvement_check_while_dom (Inl (ub, lb, indices, q, nx)) \<Longrightarrow>
     (\<forall>r. involvement_check ub lb indices q nx = Inr r \<longrightarrow>
        length (snd r) = length indices \<and> (\<forall>k. nx < int k \<longrightarrow> snd r ! k = indices ! k))"
  "involvement_check_involvement_check_while_dom (Inr (ub', lb', indices', q', nx')) \<Longrightarrow>
     (0 \<le> nx' \<longrightarrow> (\<forall>r. involvement_check_while ub' lb' indices' q' nx' = Inr r \<longrightarrow>
        length (snd r) = length indices' \<and> (\<forall>k. nx' < int k \<longrightarrow> snd r ! k = indices' ! k)))"
proof (induction rule: involvement_check_involvement_check_while.pinduct)
  case (1 ub lb indices q nx)
  show ?case
  proof (intro allI impI)
    fix r assume r: "involvement_check ub lb indices q nx = Inr r"
    show "length (snd r) = length indices \<and> (\<forall>k. nx < int k \<longrightarrow> snd r ! k = indices ! k)"
    proof (cases "nx < 0")
      case True
      with r "1.hyps" show ?thesis by (auto simp: involvement_check.psimps)
    next
      case False
      from r False "1.hyps" obtain v ind1 where
        v: "py_get indices (nx + 1) = Inr v" and
        s: "py_set indices nx (v - 1) = Inr ind1" and
        w: "involvement_check_while ub lb ind1 q nx = Inr r"
        by (auto simp: involvement_check.psimps py_bind_def split: sum.splits)
      from "1.IH"[OF False v s] False w
      have "length (snd r) = length ind1 \<and> (\<forall>k. nx < int k \<longrightarrow> snd r ! k = ind1 ! k)"
        by simp
      moreover from py_set_keeps[OF s] False
      have "length ind1 = length indices \<and> (\<forall>k. nx < int k \<longrightarrow> ind1 ! k = indices ! k)"
        by simp
      ultimately show ?thesis by simp
    qed
  qed
next
  case (2 ub lb indices q nx)
  show ?case
  proof (intro allI impI)
    fix r assume nn: "0 \<le> nx" and r: "involvement_check_while ub lb indices q nx = Inr r"
    from r "2.hyps" obtain c where c: "py_get indices nx = Inr c"
      by (auto simp: involvement_check_while.psimps py_bind_def split: sum.splits)
    show "length (snd r) = length indices \<and> (\<forall>k. nx < int k \<longrightarrow> snd r ! k = indices ! k)"
    proof (cases "0 \<le> c")
      case False
      with r c "2.hyps" show ?thesis by (auto simp: involvement_check_while.psimps)
    next
      case True
      from r c True "2.hyps" obtain f where f: "involvement_fits ub lb indices q nx = Inr f"
        by (auto simp: involvement_check_while.psimps py_bind_def split: sum.splits)
      show ?thesis
      proof (cases f)
        case False
        from r c True f False "2.hyps" obtain ind2 where
          d: "py_decr indices nx = Inr ind2" and
          w: "involvement_check_while ub lb ind2 q nx = Inr r"
          by (auto simp: involvement_check_while.psimps py_bind_def split: sum.splits)
        from "2.IH"(3)[OF c True f False d] nn w
        have "length (snd r) = length ind2 \<and> (\<forall>k. nx < int k \<longrightarrow> snd r ! k = ind2 ! k)"
          by simp
        with py_decr_keeps[OF d nn] show ?thesis by simp
      next
        case ft: True
        from r c True f ft "2.hyps" obtain r1 where
          r1: "involvement_check ub lb indices q (nx - 1) = Inr r1"
          by (auto simp: involvement_check_while.psimps py_bind_def split: sum.splits)
        from "2.IH"(1)[OF c True f ft] r1
        have k1: "length (snd r1) = length indices \<and> (\<forall>k. nx - 1 < int k \<longrightarrow> snd r1 ! k = indices ! k)"
          by simp
        show ?thesis
        proof (cases "fst r1")
          case True
          with r c \<open>0 \<le> c\<close> f ft r1 "2.hyps" have "r = (True, snd r1)"
            by (simp add: involvement_check_while.psimps)
          with k1 show ?thesis by simp
        next
          case False
          from r c \<open>0 \<le> c\<close> f ft r1 False "2.hyps" obtain ind2 where
            d: "py_decr (snd r1) nx = Inr ind2" and
            w: "involvement_check_while ub lb ind2 q nx = Inr r"
            by (auto simp: involvement_check_while.psimps py_bind_def split: sum.splits)
          from "2.IH"(2)[OF c \<open>0 \<le> c\<close> f ft r1 False d] nn w
          have "length (snd r) = length ind2 \<and> (\<forall>k. nx < int k \<longrightarrow> snd r ! k = ind2 ! k)"
            by simp
          with py_decr_keeps[OF d nn] k1 show ?thesis by simp
        qed
      qed
    qed
  qed
qed

lemma involvement_check_total:
  "All involvement_check_involvement_check_while_dom"
proof (relation "measures [
     (\<lambda>x. case x of Inl (ub, lb, ind, q, nx) \<Rightarrow> (if nx < 0 then 0 else 2 * nat nx + 3)
                  | Inr (ub, lb, ind, q, nx) \<Rightarrow> (if nx < 0 then 1 else 2 * nat nx + 2)),
     (\<lambda>x. case x of Inl (ub, lb, ind, q, nx) \<Rightarrow> 0
                  | Inr (ub, lb, ind, q, nx) \<Rightarrow> (case py_get ind nx of Inl e \<Rightarrow> 0 | Inr c \<Rightarrow> nat (c + 1)))]",
    goal_cases)
  case 1
  show ?case by simp
next
  case (2 ub lb indices q nx v ind1)
  then show ?case by simp
next
  case (3 ub lb indices q nx c f)
  then show ?case by (auto simp: nat_diff_distrib)
next
  case (4 ub lb indices q nx c f r1 ind2)
  show ?case
  proof (cases "nx < 0")
    case True
    with 4 show ?thesis by (auto simp: involvement_check.psimps)
  next
    case False
    from involvement_check_keeps_partial(1)[OF 4(8)] 4(5) False
    have "length (snd r1) = length indices" and "snd r1 ! nat nx = indices ! nat nx"
      by auto
    with False 4(1) have "py_get (snd r1) nx = Inr c"
      by (simp add: py_get_def Let_def split: if_splits)
    from py_decr_get[OF this 4(7)] 4(1,2) show ?thesis by simp
  qed
next
  case (5 ub lb indices q nx c f ind2)
  from py_decr_get[OF 5(1) 5(5)] 5(1,2) show ?case by simp
qed


termination involvement_check
  by (rule involvement_check_total)

declare involvement_check.simps [simp del] involvement_check_while.simps [simp del]

lemma involvement_check_keeps:
  assumes "involvement_check ub lb indices q nx = Inr r"
  shows "length (snd r) = length indices \<and> (\<forall>k. nx < int k \<longrightarrow> snd r ! k = indices ! k)"
  using involvement_check_keeps_partial(1)[of ub lb indices q nx] involvement_check_total assms
  by blast

text \<open>The loop of \<open>involved_in\<close> over the host index of the last pattern entry.\<close>

function involved_in_while ::
  "int list \<Rightarrow> int list \<Rightarrow> int list \<Rightarrow> int list \<Rightarrow> int \<Rightarrow> py_error + bool" where
  "involved_in_while upper_bound lower_bound indices P n =
     py_bind (py_get indices (n - 1)) (\<lambda>c.
       if c \<ge> 0 then
         py_bind (involvement_check upper_bound lower_bound indices P (n - 2)) (\<lambda>r.
           if fst r then Inr True
           else py_bind (py_decr (snd r) (n - 1)) (\<lambda>indices2.
                involved_in_while upper_bound lower_bound indices2 P n))
       else Inr False)"
  by pat_completeness auto
termination
proof (relation "measure (\<lambda>(ub, lb, ind, P, n).
          case py_get ind (n - 1) of Inl e \<Rightarrow> 0 | Inr c \<Rightarrow> nat (c + 1))", goal_cases)
  case 1
  show ?case by simp
next
  case (2 ub lb indices P n c r1 ind2)
  show ?case
  proof (cases "n - 2 < 0")
    case True
    with 2 show ?thesis by (auto simp: involvement_check.simps)
  next
    case False
    from involvement_check_keeps[OF 2(3)] False
    have "length (snd r1) = length indices" and "snd r1 ! nat (n - 1) = indices ! nat (n - 1)"
      by auto
    with False 2(1) have "py_get (snd r1) (n - 1) = Inr c"
      by (simp add: py_get_def Let_def split: if_splits)
    from py_decr_get[OF this 2(5)] 2(1,2) show ?thesis by simp
  qed
qed

declare involved_in_while.simps [simp del]


text \<open>
  \<^verbatim>\<open>
  def involvement_check_final(self, upper_bound, lower_bound, indices, q, last_require):
      for i in range(1,last_require):
          if not self.involvement_fits(upper_bound, lower_bound, indices, q, len(self)-i-1):
              return False
      return True
  \<close>
\<close>

fun involvement_check_final_loop ::
  "int list \<Rightarrow> int list \<Rightarrow> int list \<Rightarrow> int list \<Rightarrow> int \<Rightarrow> int list \<Rightarrow> py_error + bool" where
  "involvement_check_final_loop upper_bound lower_bound indices q n [] = Inr True"
| "involvement_check_final_loop upper_bound lower_bound indices q n (i # is) =
     py_bind (involvement_fits upper_bound lower_bound indices q (n - i - 1)) (\<lambda>fits.
       if \<not> fits then Inr False
       else involvement_check_final_loop upper_bound lower_bound indices q n is)"

definition involvement_check_final ::
  "int list \<Rightarrow> int list \<Rightarrow> int list \<Rightarrow> int list \<Rightarrow> int list \<Rightarrow> int \<Rightarrow> py_error + bool" where
  "involvement_check_final self upper_bound lower_bound indices q last_require =
     involvement_check_final_loop upper_bound lower_bound indices q (int (length self))
       [1..last_require - 1]"

text \<open>The pinning loop \<open>for i in range(1, last_require+1): indices[n-i] = p-i\<close>.\<close>

fun involved_in_pin :: "int list \<Rightarrow> int \<Rightarrow> int \<Rightarrow> int list \<Rightarrow> py_error + int list" where
  "involved_in_pin indices n p [] = Inr indices"
| "involved_in_pin indices n p (i # is) =
     py_bind (py_set indices (n - i) (p - i)) (\<lambda>indices1. involved_in_pin indices1 n p is)"

text \<open>
  \<^verbatim>\<open>
  def involved_in(self, P, last_require=0):
      if not self.bounds_set:
          (self.lower_bound, self.upper_bound) = self.set_up_bounds()
          self.bounds_set = True
      L = list(self); n = len(L); p = len(P)
      if n <= 1 and n <= p:
          return True
      indices = [0]*n
      if last_require == 0:
          indices[len(self)-1] = p - 1
          while indices[len(self)-1] >= 0:
              if self.involvement_check(self.upper_bound, self.lower_bound, indices, P, len(self)-2):
                  return True
              indices[len(self)-1] -= 1
          return False
      else:
          for i in range(1, last_require+1):
              indices[n-i] = p-i
          if not self.involvement_check_final(self.upper_bound, self.lower_bound, indices, P, last_require):
              return False
          return self.involvement_check(self.upper_bound, self.lower_bound, indices, P, len(self) - last_require - 1)
  \<close>
  The cached bound table is a function of \<open>self\<close>, so the model computes it at each call.
\<close>

definition involved_in :: "int list \<Rightarrow> int list \<Rightarrow> int \<Rightarrow> py_error + bool" where
  "involved_in self P last_require =
     (case set_up_bounds self of (lower_bound, upper_bound) \<Rightarrow>
        let L = self; n = int (length L); p = int (length P)
        in if n \<le> 1 \<and> n \<le> p then Inr True
           else
             let indices = replicate (nat n) 0
             in if last_require = 0 then
                  py_bind (py_set indices (int (length self) - 1) (p - 1)) (\<lambda>indices1.
                    involved_in_while upper_bound lower_bound indices1 P (int (length self)))
                else
                  py_bind (involved_in_pin indices n p [1..last_require]) (\<lambda>indices1.
                  py_bind (involvement_check_final self upper_bound lower_bound indices1 P
                             last_require) (\<lambda>ok.
                    if \<not> ok then Inr False
                    else py_bind (involvement_check upper_bound lower_bound indices1 P
                                    (int (length self) - last_require - 1))
                           (\<lambda>r. Inr (fst r)))))"

text \<open>\<open>avoids\<close> and \<open>involves\<close>, called with Permutation arguments.\<close>

definition avoids :: "int list \<Rightarrow> int list \<Rightarrow> int \<Rightarrow> py_error + bool" where
  "avoids self p lr = py_bind (involved_in p self lr) (\<lambda>r. Inr (\<not> r))"

definition involves :: "int list \<Rightarrow> int list \<Rightarrow> int \<Rightarrow> py_error + bool" where
  "involves self p lr = involved_in p self lr"

text \<open>\<open>itertools.combinations(xs, k)\<close>: the subsequences of length \<open>k\<close>, in
  lexicographic order of their positions.\<close>

fun combinations :: "'a list \<Rightarrow> nat \<Rightarrow> 'a list list" where
  "combinations xs 0 = [[]]"
| "combinations [] (Suc k) = []"
| "combinations (x # xs) (Suc k) =
     map ((#) x) (combinations xs k) @ combinations xs (Suc k)"

text \<open>
  \<^verbatim>\<open>
  def occurrences(self, pattern):
      total = 0
      for subseq in itertools.combinations(self, len(pattern)):
          if Permutation(subseq) == pattern:
              total += 1
      return total
  \<close>
\<close>

fun occurrences_loop :: "int list list \<Rightarrow> int list \<Rightarrow> int \<Rightarrow> py_error + int" where
  "occurrences_loop [] pattern tot = Inr tot"
| "occurrences_loop (sub # rest) pattern tot =
     py_bind (Permutation sub) (\<lambda>s.
       occurrences_loop rest pattern (if s = pattern then tot + 1 else tot))"

definition occurrences :: "int list \<Rightarrow> int list \<Rightarrow> py_error + int" where
  "occurrences self pattern = occurrences_loop (combinations self (length pattern)) pattern 0"



section \<open>Intervals, decomposition and inflation\<close>

text \<open>The test of both interval detectors on the window of length \<open>i\<close> starting at
  \<open>j\<close>: \<open>max(self[j:j+i]) - min(self[j:j+i]) == i-1\<close>.\<close>

definition is_interval :: "int list \<Rightarrow> nat \<Rightarrow> nat \<Rightarrow> bool" where
  "is_interval self j i =
     (Max (set (slice self j (j + i))) - Min (set (slice self j (j + i))) = int i - 1)"

text \<open>
  \<^verbatim>\<open>
  def maximal_interval(self):
      for i in range(2, len(self))[::-1]:
          for j in range (0,len(self)-i+1):
              if max(self[j:j+i]) - min(self[j:j+i]) == i-1:
                  return (i,j)
      return (0,0)
  \<close>
  The test of the inner loop is \<open>is_interval\<close>.  Every window the loops reach has
  \<open>i \<ge> 2\<close> entries, so \<open>max\<close> and \<open>min\<close> never see an empty sequence.
\<close>

fun maximal_interval_inner :: "int list \<Rightarrow> nat \<Rightarrow> nat list \<Rightarrow> (nat \<times> nat) option" where
  "maximal_interval_inner self i [] = None"
| "maximal_interval_inner self i (j # js) =
     (if is_interval self j i then Some (i, j) else maximal_interval_inner self i js)"

fun maximal_interval_outer :: "int list \<Rightarrow> nat list \<Rightarrow> nat \<times> nat" where
  "maximal_interval_outer self [] = (0, 0)"
| "maximal_interval_outer self (i # is) =
     (case maximal_interval_inner self i [0..<Suc (length self) - i] of
        Some r \<Rightarrow> r
      | None \<Rightarrow> maximal_interval_outer self is)"

definition maximal_interval :: "int list \<Rightarrow> nat \<times> nat" where
  "maximal_interval self = maximal_interval_outer self (rev [2..<length self])"

text \<open>
  \<^verbatim>\<open>
  def simple_location(self):
      mins = list(self)
      maxs = list(self)
      for i in range(1,len(self)-1):
          for j in reversed(range(i,len(self))):
              mins[j] = min(mins[j-1], self[j])
              maxs[j] = max(maxs[j-1], self[j])
              if maxs[j] - mins[j] == i:
                  return (i,j)
      return (0,0)
  \<close>
  The inner loop returns \<open>Inl\<close> of the pair on the early return and \<open>Inr\<close> of the
  arrays \<open>(mins, maxs)\<close> when it runs to its end.  All positions read are in range,
  since \<open>1 \<le> i \<le> j < len(self)\<close>.
\<close>

fun simple_location_inner ::
  "int list \<Rightarrow> nat \<Rightarrow> nat list \<Rightarrow> int list \<times> int list
     \<Rightarrow> (nat \<times> nat) + (int list \<times> int list)" where
  "simple_location_inner self i [] (mins, maxs) = Inr (mins, maxs)"
| "simple_location_inner self i (j # js) (mins, maxs) =
     (let mins' = mins[j := min (mins ! (j - 1)) (self ! j)];
          maxs' = maxs[j := max (maxs ! (j - 1)) (self ! j)]
      in if maxs' ! j - mins' ! j = int i then Inl (i, j)
         else simple_location_inner self i js (mins', maxs'))"

fun simple_location_outer ::
  "int list \<Rightarrow> nat list \<Rightarrow> int list \<times> int list \<Rightarrow> nat \<times> nat" where
  "simple_location_outer self [] (mins, maxs) = (0, 0)"
| "simple_location_outer self (i # is) (mins, maxs) =
     (case simple_location_inner self i (rev [i..<length self]) (mins, maxs) of
        Inl r \<Rightarrow> r
      | Inr st \<Rightarrow> simple_location_outer self is st)"

definition simple_location :: "int list \<Rightarrow> nat \<times> nat" where
  "simple_location self = simple_location_outer self [1..<length self - 1] (self, self)"

text \<open>
  \<^verbatim>\<open>
  def is_simple(self):
      (i,j) = self.simple_location()
      return i == 0
  \<close>
\<close>

definition is_simple :: "int list \<Rightarrow> bool" where
  "is_simple self = (case simple_location self of (i, j) \<Rightarrow> i = 0)"


lemma maximal_interval_inner_Some:
  "maximal_interval_inner self i js = Some r \<Longrightarrow>
     fst r = i \<and> snd r \<in> set js \<and> is_interval self (snd r) i"
  by (induction js) (auto split: if_splits)

lemma maximal_interval_outer_range:
  "maximal_interval_outer self is = r \<Longrightarrow>
     r = (0, 0) \<or> (fst r \<in> set is \<and> snd r < Suc (length self) - fst r)"
proof (induction "is")
  case Nil
  then show ?case by simp
next
  case (Cons i "is")
  show ?case
  proof (cases "maximal_interval_inner self i [0..<Suc (length self) - i]")
    case None
    with Cons show ?thesis by auto
  next
    case (Some r')
    with Cons.prems have "r = r'" by simp
    with maximal_interval_inner_Some[OF Some] show ?thesis by auto
  qed
qed

lemma maximal_interval_range:
  assumes "maximal_interval self = (i, j)" and "i \<noteq> 0"
  shows "2 \<le> i \<and> i < length self \<and> i + j \<le> length self"
  using maximal_interval_outer_range[OF assms(1)[unfolded maximal_interval_def]] assms(2)
  by auto

lemma py_map_length: "py_map f xs = Inr ys \<Longrightarrow> length ys = length xs"
  by (induction xs arbitrary: ys) (auto split: sum.splits)

lemma standardize_length: "standardize L = Inr r \<Longrightarrow> length r = length L"
  by (auto simp: standardize_def Let_def py_map_length split: if_splits)


text \<open>
  \<^verbatim>\<open>
  def decomposition(self):
      base = Permutation(self)
      components = [Permutation([1])for i in range(0,len(base))]
      while not base.is_simple():
          assert len(base) == len(components)
          (i,j) = base.maximal_interval()
          assert i != 0
          interval = list(base[j:i+j])
          new_base = list(base[0:j])
          new_base.append(base[j])
          new_base.extend(base[i+j:len(base)])
          new_components = components[0:j]
          new_components.append(Permutation(interval))
          new_components.extend(components[i+j:len(base)])
          base = Permutation(new_base)
          components = new_components
      return (base, components)
  \<close>
  The loop is \<open>decomposition_while\<close> on the state \<open>(base, components)\<close>; both
  assertions are branches of the model.
\<close>

function decomposition_while ::
  "int list \<Rightarrow> int list list \<Rightarrow> py_error + (int list \<times> int list list)" where
  "decomposition_while base components =
     (if \<not> \<not> is_simple base then Inr (base, components)
      else if length base \<noteq> length components then Inl AssertionError
      else
        (case maximal_interval base of (i, j) \<Rightarrow>
           if \<not> i \<noteq> 0 then Inl AssertionError
           else
             let interval = slice base j (i + j);
                 new_base = slice base 0 j @ [base ! j] @ slice base (i + j) (length base)
             in py_bind (Permutation interval) (\<lambda>c.
                  let new_components =
                        slice components 0 j @ [c] @ slice components (i + j) (length base)
                  in py_bind (Permutation new_base) (\<lambda>b.
                       decomposition_while b new_components))))"
  by pat_completeness auto
termination
proof (relation "measure (\<lambda>(base, components). length base)", goal_cases)
  case 1
  show ?case by simp
next
  case (2 base components i j interval new_base c new_components b)
  from 2(3,4) have mi: "maximal_interval base = (i, j)" and "i \<noteq> 0" by auto
  from maximal_interval_range[OF this]
  have rg: "2 \<le> i" "i + j \<le> length base" by auto
  from 2(9) have "standardize new_base = Inr b" by (simp only: Permutation_list)
  then have "length b = length new_base" by (rule standardize_length)
  also from 2(6) rg have "\<dots> < length base" by (simp add: slice_def)
  finally show ?case by simp
qed

declare decomposition_while.simps [simp del]


definition decomposition :: "int list \<Rightarrow> py_error + (int list \<times> int list list)" where
  "decomposition self =
     py_bind (Permutation_new (PermArg self) None) (\<lambda>base.
     py_bind (py_map (\<lambda>i. Permutation [1]) [0..<length base]) (\<lambda>components.
       decomposition_while base components))"

text \<open>
  \<^verbatim>\<open>
  def inflate(self, components):
      assert len(self) == len(components), 'number of components must equal length of base'
      L = list(self)
      NL = list(self)
      current_entry = 0
      for entry in range(0, len(self)):
          index = L.index(entry)
          NL[index] = [components[index][i]+current_entry for i in range(0, len(components[index]))]
          current_entry += len(components[index])
      NL_flat = [a for sl in NL for a in sl]
      return Permutation(NL_flat)
  \<close>
  \<open>NL\<close> starts as a list of integers whose entries are replaced by lists: an entry
  is \<open>Inl\<close> of an integer or \<open>Inr\<close> of a list, and flattening raises \<open>TypeError\<close> on
  an integer left over.
\<close>

fun inflate_loop ::
  "nat list \<Rightarrow> int list \<Rightarrow> int list list \<Rightarrow> (int + int list) list \<Rightarrow> int
     \<Rightarrow> py_error + (int + int list) list" where
  "inflate_loop [] L components NL current_entry = Inr NL"
| "inflate_loop (entry # es) L components NL current_entry =
     py_bind (py_index L (int entry)) (\<lambda>index.
       inflate_loop es L components
         (NL[index := Inr (map (\<lambda>i. components ! index ! i + current_entry)
                             [0..<length (components ! index)])])
         (current_entry + int (length (components ! index))))"

definition inflate :: "int list \<Rightarrow> int list list \<Rightarrow> py_error + int list" where
  "inflate self components =
     (if length self \<noteq> length components then Inl AssertionError
      else
        py_bind (inflate_loop [0..<length self] self components (map Inl self) 0) (\<lambda>NL.
        py_bind (py_map (\<lambda>sl. case sl of Inl a \<Rightarrow> Inl TypeError | Inr l \<Rightarrow> Inr l) NL) (\<lambda>NLs.
          Permutation (concat NLs))))"



section \<open>Standardization computes ranks\<close>

definition rank_in :: "int list \<Rightarrow> int \<Rightarrow> nat" where
  "rank_in L x = length (filter (\<lambda>y. y < x) L)"

lemma py_index_sorted:
  assumes "sorted xs" and "distinct xs" and "x \<in> set xs"
  shows "py_index xs x = Inr (rank_in xs x)"
  using assms
proof (induction xs)
  case Nil
  then show ?case by simp
next
  case (Cons a xs)
  show ?case
  proof (cases "a = x")
    case True
    with Cons.prems have "filter (\<lambda>y. y < x) (a # xs) = []"
      by (auto simp: filter_empty_conv)
    with True show ?thesis by (simp add: rank_in_def)
  next
    case False
    with Cons.prems have "x \<in> set xs" "a < x" by auto
    with Cons False show ?thesis by (simp add: rank_in_def)
  qed
qed

lemma rank_in_sort: "rank_in (sort L) x = rank_in L x"
  by (simp add: rank_in_def filter_sort)

lemma py_map_total:
  assumes "\<And>x. x \<in> set xs \<Longrightarrow> f x = Inr (g x)"
  shows "py_map f xs = Inr (map g xs)"
  using assms by (induction xs) auto

lemma standardize_rank:
  assumes "distinct L"
  shows "standardize L = Inr (map (\<lambda>x. int (rank_in L x)) L)"
proof -
  have "card (set L) = length L" using assms by (rule distinct_card)
  moreover have "py_map (\<lambda>x. case py_index (sort L) x of Inl e \<Rightarrow> Inl e | Inr k \<Rightarrow> Inr (int k)) L
        = Inr (map (\<lambda>x. int (rank_in L x)) L)"
  proof (rule py_map_total)
    fix x assume "x \<in> set L"
    with assms have "py_index (sort L) x = Inr (rank_in (sort L) x)"
      by (intro py_index_sorted) auto
    then show "(case py_index (sort L) x of Inl e \<Rightarrow> Inl e | Inr k \<Rightarrow> Inr (int k))
        = Inr (int (rank_in L x))"
      by (simp add: rank_in_sort)
  qed
  ultimately show ?thesis by (simp add: standardize_def)
qed

lemma standardize_not_distinct:
  assumes "\<not> distinct L"
  shows "standardize L = Inl AssertionError"
proof -
  from assms have "card (set L) \<noteq> length L" using card_distinct by blast
  then show ?thesis by (simp add: standardize_def)
qed

lemma is_perm_iff: "is_perm p \<longleftrightarrow> distinct p \<and> set p = int ` {0..<length p}"
proof
  assume "is_perm p"
  then have s: "sort p = map int [0..<length p]" by (simp add: is_perm_def)
  have "distinct (sort p)" unfolding s by (simp add: distinct_map)
  moreover have "set (sort p) = int ` {0..<length p}" unfolding s by simp
  ultimately show "distinct p \<and> set p = int ` {0..<length p}" by simp
next
  assume a: "distinct p \<and> set p = int ` {0..<length p}"
  have "sort p = map int [0..<length p]"
  proof (rule sorted_distinct_set_unique)
    show "sorted (map int [0..<length p])"
      by (simp add: sorted_map strict_sorted_iff[symmetric] sorted_wrt_iff_nth_less)
    show "distinct (map int [0..<length p])" by (simp add: distinct_map)
  qed (use a in auto)
  then show "is_perm p" by (simp add: is_perm_def)
qed

lemma rank_in_perm:
  assumes "is_perm p" and "x \<in> set p"
  shows "int (rank_in p x) = x"
proof -
  from assms have d: "distinct p" and s: "set p = int ` {0..<length p}"
    by (simp_all add: is_perm_iff)
  from assms(2) s obtain k where k: "x = int k" "k < length p" by auto
  have "rank_in p x = card (set (filter (\<lambda>y. y < x) p))"
    unfolding rank_in_def using distinct_card[OF distinct_filter[OF d]] by simp
  also have "set (filter (\<lambda>y. y < x) p) = int ` {0..<k}"
    using s k by (auto simp: image_iff) 
  also have "card (int ` {0..<k}) = k" by (simp add: card_image)
  finally show ?thesis using k by simp
qed

lemma standardize_perm:
  assumes "is_perm p"
  shows "standardize p = Inr p"
proof -
  from assms have "distinct p" by (simp add: is_perm_iff)
  then have "standardize p = Inr (map (\<lambda>x. int (rank_in p x)) p)" by (rule standardize_rank)
  also have "map (\<lambda>x. int (rank_in p x)) p = p"
    using rank_in_perm[OF assms] by (simp add: map_idI)
  finally show ?thesis .
qed

lemma standardize_mono:
  assumes "\<And>x y. x \<in> set L \<Longrightarrow> y \<in> set L \<Longrightarrow> (f x < f y) = (x < y)" and "distinct L"
  shows "standardize (map f L) = standardize L"
proof -
  have inj: "inj_on f (set L)"
  proof (rule inj_onI)
    fix x y assume "x \<in> set L" "y \<in> set L" "f x = f y"
    with assms(1)[of x y] assms(1)[of y x] show "x = y" by auto
  qed
  then have d: "distinct (map f L)" using assms(2) by (simp add: distinct_map)
  have "\<And>x. x \<in> set L \<Longrightarrow> rank_in (map f L) (f x) = rank_in L x"
  proof -
    fix x assume x: "x \<in> set L"
    have "filter (\<lambda>y. y < f x) (map f L) = map f (filter (\<lambda>y. f y < f x) L)"
      by (simp add: filter_map comp_def)
    also have "filter (\<lambda>y. f y < f x) L = filter (\<lambda>y. y < x) L"
      using assms(1) x by (intro filter_cong) auto
    finally show "rank_in (map f L) (f x) = rank_in L x" by (simp add: rank_in_def)
  qed
  then have "map (\<lambda>x. int (rank_in (map f L) x)) (map f L) = map (\<lambda>x. int (rank_in L x)) L"
    by simp
  with standardize_rank[OF d] standardize_rank[OF assms(2)] show ?thesis by simp
qed


section \<open>Insertion and deletion\<close>

lemma is_perm_iff_int: "is_perm p \<longleftrightarrow> distinct p \<and> set p = {0..<int (length p)}"
  by (simp add: is_perm_iff image_int_atLeastLessThan)

lemma py_del_in_range:
  assumes "0 \<le> i" and "i < int (length xs)"
  shows "py_del xs i = Inr (take (nat i) xs @ drop (Suc (nat i)) xs)"
  using assms by (simp add: py_del_def Let_def)

lemma py_del_out_of_range:
  assumes "\<not> (- int (length xs) \<le> i \<and> i < int (length xs))"
  shows "py_del xs i = Inl IndexError"
  using assms by (auto simp: py_del_def Let_def)

lemma py_slice_split: "py_slice_to xs i @ py_slice_from xs i = xs"
  by (simp add: py_slice_to_def py_slice_from_def)

lemma py_clamp_in_range: "0 \<le> i \<Longrightarrow> i \<le> int (length xs) \<Longrightarrow> py_clamp xs i = nat i"
  by (simp add: py_clamp_def Let_def)

text \<open>The renumbering loop of \<open>insert\<close>: entries at or above \<open>val\<close> move up by one.\<close>

definition shift_up :: "int \<Rightarrow> int \<Rightarrow> int" where
  "shift_up val x = (if x \<ge> val then x + 1 else x)"

lemma shift_up_less: "(shift_up val x < shift_up val y) = (x < y)"
  by (auto simp: shift_up_def)

lemma shift_up_inj: "inj (shift_up val)"
  by (rule injI) (auto simp: shift_up_def split: if_splits)

lemma shift_up_fresh: "shift_up val x \<noteq> val"
  by (auto simp: shift_up_def)

lemma insert_perm_unfold:
  "insert_perm self idx val =
     standardize (py_slice_to (map (shift_up val) self) idx @ [val]
                    @ py_slice_from (map (shift_up val) self) idx)"
  by (simp add: insert_perm_def Let_def shift_up_def[abs_def])

lemma inserted_distinct:
  assumes "distinct p"
  shows "distinct (py_slice_to (map (shift_up val) p) idx @ [val]
                    @ py_slice_from (map (shift_up val) p) idx)"
proof -
  let ?q = "map (shift_up val) p"
  have d: "distinct ?q" using assms shift_up_inj by (simp add: distinct_map inj_on_def)
  have f: "val \<notin> set ?q" by (auto simp: shift_up_def split: if_splits)
  from d have "distinct (py_slice_to ?q idx @ py_slice_from ?q idx)"
    by (simp only: py_slice_split)
  moreover have "set (py_slice_to ?q idx @ py_slice_from ?q idx) = set ?q"
    by (simp only: py_slice_split)
  ultimately show ?thesis using f by auto
qed

lemma inserted_set:
  "set (py_slice_to (map (shift_up val) p) idx @ [val] @ py_slice_from (map (shift_up val) p) idx)
     = insert val (shift_up val ` set p)"
proof -
  let ?q = "map (shift_up val) p"
  have "set (py_slice_to ?q idx @ [val] @ py_slice_from ?q idx)
      = insert val (set (py_slice_to ?q idx @ py_slice_from ?q idx))" by auto
  then show ?thesis by (simp only: py_slice_split set_map)
qed

lemma inserted_length:
  "length (py_slice_to (map (shift_up val) p) idx @ [val] @ py_slice_from (map (shift_up val) p) idx)
     = Suc (length p)"
proof -
  let ?q = "map (shift_up val) p"
  have "length (py_slice_to ?q idx @ [val] @ py_slice_from ?q idx)
      = Suc (length (py_slice_to ?q idx @ py_slice_from ?q idx))" by simp
  then show ?thesis by (simp only: py_slice_split length_map)
qed

lemma shift_up_image:
  assumes "0 \<le> v" and "v \<le> n"
  shows "insert v (shift_up v ` {0..<n}) = {0..<n + 1}"
proof (rule set_eqI)
  fix x
  show "x \<in> insert v (shift_up v ` {0..<n}) \<longleftrightarrow> x \<in> {0..<n + 1}"
  proof
    assume "x \<in> insert v (shift_up v ` {0..<n})"
    with assms show "x \<in> {0..<n + 1}" by (auto simp: shift_up_def split: if_splits)
  next
    assume x: "x \<in> {0..<n + 1}"
    show "x \<in> insert v (shift_up v ` {0..<n})"
    proof (cases "x < v")
      case True
      with x assms have "x \<in> {0..<n}" "shift_up v x = x" by (auto simp: shift_up_def)
      then show ?thesis by (metis imageI insertI2)
    next
      case False
      show ?thesis
      proof (cases "x = v")
        case True then show ?thesis by simp
      next
        case ne: False
        with False x assms have "x - 1 \<in> {0..<n}" "shift_up v (x - 1) = x"
          by (auto simp: shift_up_def)
        then show ?thesis by (metis imageI insertI2)
      qed
    qed
  qed
qed

lemma inserted_is_perm:
  assumes "is_perm p" and "0 \<le> v" and "v \<le> int (length p)"
  shows "is_perm (py_slice_to (map (shift_up v) p) idx @ [v] @ py_slice_from (map (shift_up v) p) idx)"
proof -
  from assms(1) have d: "distinct p" and s: "set p = {0..<int (length p)}"
    by (simp_all add: is_perm_iff_int)
  show ?thesis
    unfolding is_perm_iff_int inserted_length inserted_set s
    using inserted_distinct[OF d] shift_up_image[OF assms(2,3)]
    by (simp add: add.commute)
qed

lemma standardize_shift_up:
  assumes "is_perm p"
  shows "standardize (map (shift_up v) p) = Inr p"
proof -
  from assms have d: "distinct p" by (simp add: is_perm_iff)
  have "standardize (map (shift_up v) p) = standardize p"
    by (rule standardize_mono) (simp_all add: shift_up_less d)
  with standardize_perm[OF assms] show ?thesis by simp
qed

text \<open>
  Claim C6.  For every permutation \<open>p\<close>, every index \<open>i\<close> in \<open>[0, len(p)]\<close> and every
  value \<open>v\<close> in \<open>[0, len(p)]\<close>, \<open>p.insert(i, v)\<close> returns a permutation \<open>r\<close>, and
  \<open>r.delete(i)\<close> returns \<open>p\<close>.
\<close>

theorem insert_delete_inverse:
  assumes "is_perm p" and "0 \<le> i" and "i \<le> int (length p)"
    and "0 \<le> v" and "v \<le> int (length p)"
  shows "\<exists>r. insert_perm p i v = Inr r \<and> delete r i = Inr p"
proof -
  let ?q = "map (shift_up v) p"
  let ?r = "py_slice_to ?q i @ [v] @ py_slice_from ?q i"
  have r: "insert_perm p i v = Inr ?r"
    unfolding insert_perm_unfold
    by (rule standardize_perm) (rule inserted_is_perm[OF assms(1,4,5)])
  have c: "py_clamp ?q i = nat i" using assms(2,3) by (simp add: py_clamp_in_range)
  have l: "length (py_slice_to ?q i) = nat i"
    using assms(2,3) by (simp add: py_slice_to_def c)
  have "length ?r = Suc (length p)" by (rule inserted_length)
  with assms(2,3) have "i < int (length ?r)" by simp
  with assms(2) have "py_del ?r i = Inr (take (nat i) ?r @ drop (Suc (nat i)) ?r)"
    by (rule py_del_in_range)
  also have "take (nat i) ?r = py_slice_to ?q i" using l by simp
  also have "drop (Suc (nat i)) ?r = py_slice_from ?q i" using l by simp
  also have "py_slice_to ?q i @ py_slice_from ?q i = ?q" by (rule py_slice_split)
  finally have "delete ?r i = standardize ?q" by (simp add: delete_def)
  with standardize_shift_up[OF assms(1)] r show ?thesis by simp
qed

text \<open>The law at \<open>p = 2 4 1 3\<close>, \<open>i = 2\<close>, \<open>v = 1\<close>, the example of the docstring of \<open>insert\<close>.\<close>

theorem insert_delete_inverse_witness:
  "is_perm [1, 3, 0, 2] \<and> (\<exists>r. insert_perm [1, 3, 0, 2] 2 1 = Inr r \<and> delete r 2 = Inr [1, 3, 0, 2])"
proof -
  have h: "is_perm [1, 3, 0, 2]" by (simp add: is_perm_def)
  from insert_delete_inverse[OF h, of 2 1] h show ?thesis by simp
qed

section \<open>Invalid construction\<close>

text \<open>
  Claim C8.  For every input sequence \<open>L\<close> with a duplicated element, \<open>standardize(L)\<close>
  and \<open>Permutation(L)\<close> raise the error of the distinctness assertion, so neither
  returns an object.
\<close>

theorem duplicates_rejected:
  "\<not> distinct L \<Longrightarrow>
     standardize L = Inl AssertionError \<and> Permutation_new (IterArg L) None = Inl AssertionError"
  by (simp add: standardize_not_distinct)

text \<open>The sequence \<open>3, 1, 3\<close> is rejected.\<close>

theorem duplicates_rejected_witness:
  "\<not> distinct [3, 1, 3 :: int] \<and> standardize [3, 1, 3] = Inl AssertionError
     \<and> Permutation_new (IterArg [3, 1, 3]) None = Inl AssertionError"
  using duplicates_rejected[of "[3, 1, 3]"] by simp

section \<open>Indexing at length three\<close>

text \<open>
  Claim C5, as the code has it.  \<open>ind2perm(0, 3)\<close> is \<open>2 3 1\<close>, that is \<open>[1, 2, 0]\<close>, and
  \<open>perm2ind\<close> of the identity \<open>[0, 1, 2]\<close> is \<open>5\<close>; the index of \<open>[1, 2, 0]\<close> is \<open>0\<close>
  and \<open>ind2perm(5, 3)\<close> is the identity.
\<close>

theorem index_zero_values:
  "ind2perm 0 3 = Inr [1, 2, 0] \<and> perm2ind [0, 1, 2] = Inr 5
   \<and> perm2ind [1, 2, 0] = Inr 0 \<and> ind2perm 5 3 = Inr [0, 1, 2]"
  by code_simp

text \<open>Claim C5 as stated fails: index \<open>0\<close> and the identity do not correspond.\<close>

theorem index_zero_counterexample:
  "\<not> (ind2perm 0 3 = Inr [0, 1, 2] \<and> perm2ind [0, 1, 2] = Inr 0)"
  by code_simp

section \<open>The example \<open>2 4 1 3 5\<close>\<close>

text \<open>Claim C3 as stated fails: \<open>2 4 1 3 5\<close> is not simple and is not its own base.\<close>

theorem example_24135_counterexample:
  "\<not> (is_simple [1, 3, 0, 2, 4]
       \<and> decomposition [1, 3, 0, 2, 4] = Inr ([1, 3, 0, 2, 4], [[0], [0], [0], [0], [0]]))"
  by code_simp

text \<open>
  Claim C3, as the code has it.  \<open>2 4 1 3 5\<close>, internally \<open>[1, 3, 0, 2, 4]\<close>, is not
  simple: its first four entries form an interval, which \<open>maximal_interval\<close> reports
  as \<open>(4, 0)\<close>.  \<open>decomposition\<close> returns the base \<open>[0, 1]\<close> with the components
  \<open>[1, 3, 0, 2]\<close> and \<open>[0]\<close>, and inflating them gives the permutation back.
\<close>

theorem example_24135_decomposition:
  "Permutation [2, 4, 1, 3, 5] = Inr [1, 3, 0, 2, 4]
   \<and> \<not> is_simple [1, 3, 0, 2, 4]
   \<and> maximal_interval [1, 3, 0, 2, 4] = (4, 0)
   \<and> decomposition [1, 3, 0, 2, 4] = Inr ([0, 1], [[1, 3, 0, 2], [0]])
   \<and> inflate [0, 1] [[1, 3, 0, 2], [0]] = Inr [1, 3, 0, 2, 4]"
  by code_simp



section \<open>The search order of \<open>maximal_interval\<close>\<close>

lemma maximal_interval_inner_None:
  "maximal_interval_inner self i js = None \<longleftrightarrow> (\<forall>j \<in> set js. \<not> is_interval self j i)"
  by (induction js) auto

lemma maximal_interval_inner_first:
  "maximal_interval_inner self i [a..<b] = Some r \<Longrightarrow>
     fst r = i \<and> a \<le> snd r \<and> snd r < b \<and> is_interval self (snd r) i
       \<and> (\<forall>j'. a \<le> j' \<and> j' < snd r \<longrightarrow> \<not> is_interval self j' i)"
proof (induction "b - a" arbitrary: a)
  case 0
  then show ?case by simp
next
  case (Suc d)
  then have ab: "a < b" by simp
  then have u: "[a..<b] = a # [Suc a..<b]" by (rule upt_conv_Cons)
  show ?case
  proof (cases "is_interval self a i")
    case True
    with Suc.prems u have "r = (i, a)" by simp
    with True ab show ?thesis by auto
  next
    case False
    with Suc.prems u have "maximal_interval_inner self i [Suc a..<b] = Some r"
      by simp
    moreover from Suc.hyps(2) have "d = b - Suc a" by simp
    ultimately have "fst r = i \<and> Suc a \<le> snd r \<and> snd r < b \<and> is_interval self (snd r) i
       \<and> (\<forall>j'. Suc a \<le> j' \<and> j' < snd r \<longrightarrow> \<not> is_interval self j' i)"
      by (rule Suc.hyps(1)[rotated])
    with False show ?thesis
      by (metis Suc_leD Suc_leI le_neq_implies_less)
  qed
qed

text \<open>The windows of length \<open>i\<close> inside a list of length \<open>n\<close>.\<close>

definition no_window :: "int list \<Rightarrow> nat \<Rightarrow> bool" where
  "no_window self i = (\<forall>j. j + i \<le> length self \<longrightarrow> \<not> is_interval self j i)"

lemma maximal_interval_inner_None_window:
  "maximal_interval_inner self i [0..<Suc (length self) - i] = None \<longleftrightarrow> no_window self i"
proof -
  have "\<And>j. j < Suc (length self) - i \<longleftrightarrow> j + i \<le> length self" by arith
  then show ?thesis unfolding maximal_interval_inner_None no_window_def by auto
qed

lemma maximal_interval_outer_down:
  assumes "b \<le> length self"
  shows "maximal_interval_outer self (rev [a..<b]) = r \<Longrightarrow>
     (r = (0, 0) \<and> (\<forall>i. a \<le> i \<and> i < b \<longrightarrow> no_window self i))
     \<or> (a \<le> fst r \<and> fst r < b \<and> snd r + fst r \<le> length self
          \<and> is_interval self (snd r) (fst r)
          \<and> (\<forall>j'. j' < snd r \<longrightarrow> \<not> is_interval self j' (fst r))
          \<and> (\<forall>i. fst r < i \<and> i < b \<longrightarrow> no_window self i))"
  using assms
proof (induction b)
  case 0
  then show ?case by simp
next
  case (Suc b)
  show ?case
  proof (cases "a \<le> b")
    case False
    with Suc.prems show ?thesis by auto
  next
    case True
    then have u: "rev [a..<Suc b] = b # rev [a..<b]" by simp
    from Suc.prems have bl: "b < length self" by simp
    show ?thesis
    proof (cases "maximal_interval_inner self b [0..<Suc (length self) - b]")
      case (Some r')
      with Suc.prems u have rr: "r = r'" by simp
      from maximal_interval_inner_first[OF Some] rr bl True show ?thesis
        by auto
    next
      case None
      then have nw: "no_window self b" by (simp add: maximal_interval_inner_None_window)
      from None Suc.prems u have "maximal_interval_outer self (rev [a..<b]) = r" by simp
      from Suc.IH[OF this] bl
      have "(r = (0, 0) \<and> (\<forall>i. a \<le> i \<and> i < b \<longrightarrow> no_window self i))
     \<or> (a \<le> fst r \<and> fst r < b \<and> snd r + fst r \<le> length self
          \<and> is_interval self (snd r) (fst r)
          \<and> (\<forall>j'. j' < snd r \<longrightarrow> \<not> is_interval self j' (fst r))
          \<and> (\<forall>i. fst r < i \<and> i < b \<longrightarrow> no_window self i))" by simp
      with nw show ?thesis
        by (metis less_Suc_eq)
    qed
  qed
qed

text \<open>
  Claim C9.  For every sequence of length \<open>n\<close>, \<open>maximal_interval()\<close> returns \<open>(0, 0)\<close>
  exactly when no window \<open>self[j:j+i]\<close> with \<open>2 \<le> i \<le> n-1\<close> satisfies
  \<open>max - min == i - 1\<close>; a result \<open>(i, j)\<close> other than \<open>(0, 0)\<close> has \<open>2 \<le> i \<le> n-1\<close>, its
  window satisfies the test, no longer window inside the sequence does, and no
  window of the same length starts before \<open>j\<close>.
\<close>

theorem maximal_interval_spec:
  "(maximal_interval self = (0, 0) \<longleftrightarrow>
      (\<forall>i j. 2 \<le> i \<and> i < length self \<and> j + i \<le> length self \<longrightarrow> \<not> is_interval self j i))
   \<and> (maximal_interval self = (i, j) \<and> (i, j) \<noteq> (0, 0) \<longrightarrow>
        2 \<le> i \<and> i < length self \<and> j + i \<le> length self \<and> is_interval self j i
        \<and> (\<forall>i' j'. i < i' \<and> i' < length self \<and> j' + i' \<le> length self
               \<longrightarrow> \<not> is_interval self j' i')
        \<and> (\<forall>j'. j' < j \<longrightarrow> \<not> is_interval self j' i))"
proof -
  obtain a b where r: "maximal_interval self = (a, b)" by (cases "maximal_interval self")
  then have o: "maximal_interval_outer self (rev [2..<length self]) = (a, b)"
    by (simp add: maximal_interval_def)
  from maximal_interval_outer_down[OF le_refl o]
  consider (none) "a = 0" "b = 0" "\<forall>i. 2 \<le> i \<and> i < length self \<longrightarrow> no_window self i"
    | (found) "2 \<le> a" "a < length self" "b + a \<le> length self" "is_interval self b a"
        "\<forall>j'. j' < b \<longrightarrow> \<not> is_interval self j' a"
        "\<forall>i. a < i \<and> i < length self \<longrightarrow> no_window self i"
    by auto
  then show ?thesis
  proof cases
    case none
    with r show ?thesis by (auto simp: no_window_def)
  next
    case found
    have "\<not> (\<forall>i j. 2 \<le> i \<and> i < length self \<and> j + i \<le> length self \<longrightarrow> \<not> is_interval self j i)"
      using found(1-4) by blast
    moreover have "(a, b) \<noteq> (0, 0)" using found(1) by simp
    ultimately show ?thesis using r found by (auto simp: no_window_def)
  qed
qed

text \<open>The two cases at \<open>2 4 1 3 5\<close>, whose first four entries form the largest interval,
  and at the simple permutation \<open>2 4 1 3\<close>.\<close>

theorem maximal_interval_spec_witness:
  "maximal_interval [1, 3, 0, 2, 4] = (4, 0) \<and> is_interval [1, 3, 0, 2, 4] 0 4
   \<and> \<not> is_interval [1, 3, 0, 2, 4] 1 4
   \<and> maximal_interval [1, 3, 0, 2] = (0, 0) \<and> \<not> is_interval [1, 3, 0, 2] 1 2"
proof -
  have a: "maximal_interval [1, 3, 0, 2, 4] = (4, 0)" by code_simp
  have b: "maximal_interval [1, 3, 0, 2] = (0, 0)" by code_simp
  from maximal_interval_spec[of "[1, 3, 0, 2, 4]" 4 0] a
  have "is_interval [1, 3, 0, 2, 4] 0 4" by simp
  moreover from maximal_interval_spec[of "[1, 3, 0, 2]" 0 0] b
  have "\<not> is_interval [1, 3, 0, 2] 1 2" by simp
  moreover have "\<not> is_interval [1, 3, 0, 2, 4] 1 4" by code_simp
  ultimately show ?thesis using a b by simp
qed


section \<open>\<open>simple_location\<close> keeps running window minima and maxima\<close>

text \<open>The smallest and the largest of the \<open>i + 1\<close> entries ending at position \<open>j\<close>.\<close>

definition wmin :: "int list \<Rightarrow> nat \<Rightarrow> nat \<Rightarrow> int" where
  "wmin self j i = Min (set (slice self (j - i) (Suc j)))"

definition wmax :: "int list \<Rightarrow> nat \<Rightarrow> nat \<Rightarrow> int" where
  "wmax self j i = Max (set (slice self (j - i) (Suc j)))"

lemma slice_snoc:
  assumes "a \<le> j" and "j < length xs"
  shows "slice xs a (Suc j) = slice xs a j @ [xs ! j]"
proof -
  have "take (Suc j - a) (drop a xs) = take (Suc (j - a)) (drop a xs)"
    using assms by (simp add: Suc_diff_le)
  also have "\<dots> = take (j - a) (drop a xs) @ [drop a xs ! (j - a)]"
    using assms by (intro take_Suc_conv_app_nth) simp
  finally show ?thesis using assms by (simp add: slice_def)
qed

lemma slice_nonempty: "a < b \<Longrightarrow> b \<le> length xs \<Longrightarrow> slice xs a b \<noteq> []"
  by (simp add: slice_def)

lemma wmin_zero: "j < length self \<Longrightarrow> wmin self j 0 = self ! j"
  by (simp add: wmin_def slice_def take_Suc_conv_app_nth Cons_nth_drop_Suc[symmetric])

lemma wmax_zero: "j < length self \<Longrightarrow> wmax self j 0 = self ! j"
  by (simp add: wmax_def slice_def take_Suc_conv_app_nth Cons_nth_drop_Suc[symmetric])

lemma wmin_step:
  assumes "1 \<le> i" and "i \<le> j" and "j < length self"
  shows "wmin self j i = min (wmin self (j - 1) (i - 1)) (self ! j)"
proof -
  have e: "j - 1 - (i - 1) = j - i" "Suc (j - 1) = j" using assms by simp_all
  have s: "slice self (j - i) (Suc j) = slice self (j - i) j @ [self ! j]"
    using assms by (intro slice_snoc) simp_all
  have ne: "slice self (j - i) j \<noteq> []" using assms by (intro slice_nonempty) simp_all
  show ?thesis unfolding wmin_def e s using ne
    by (simp add: Min_insert min.commute)
qed

lemma wmax_step:
  assumes "1 \<le> i" and "i \<le> j" and "j < length self"
  shows "wmax self j i = max (wmax self (j - 1) (i - 1)) (self ! j)"
proof -
  have e: "j - 1 - (i - 1) = j - i" "Suc (j - 1) = j" using assms by simp_all
  have s: "slice self (j - i) (Suc j) = slice self (j - i) j @ [self ! j]"
    using assms by (intro slice_snoc) simp_all
  have ne: "slice self (j - i) j \<noteq> []" using assms by (intro slice_nonempty) simp_all
  show ?thesis unfolding wmax_def e s using ne
    by (simp add: Max_insert max.commute)
qed

lemma window_is_interval:
  "i \<le> j \<Longrightarrow> (wmax self j i - wmin self j i = int i) = is_interval self (j - i) (Suc i)"
  by (simp add: wmax_def wmin_def is_interval_def)

text \<open>
  The state of round \<open>i\<close> when the positions \<open>m, ..., n-1\<close> have been rewritten:
  they hold the extrema of windows of \<open>i + 1\<close> entries, the positions below still
  those of \<open>i\<close> entries.
\<close>

definition round_state :: "int list \<Rightarrow> nat \<Rightarrow> nat \<Rightarrow> int list \<times> int list \<Rightarrow> bool" where
  "round_state self i m st =
     (case st of (mins, maxs) \<Rightarrow>
        length mins = length self \<and> length maxs = length self
        \<and> (\<forall>k. i - 1 \<le> k \<and> k < m \<longrightarrow>
               mins ! k = wmin self k (i - 1) \<and> maxs ! k = wmax self k (i - 1))
        \<and> (\<forall>k. m \<le> k \<and> k < length self \<longrightarrow>
               mins ! k = wmin self k i \<and> maxs ! k = wmax self k i))"

lemma simple_location_inner_round:
  assumes "1 \<le> i" and "m \<le> length self" and "round_state self i m st"
  shows "case simple_location_inner self i (rev [i..<m]) st of
           Inl r \<Rightarrow> fst r = i \<and> i \<le> snd r \<and> snd r < m
                      \<and> wmax self (snd r) i - wmin self (snd r) i = int i
         | Inr st' \<Rightarrow> round_state self (Suc i) (length self) st'
              \<and> (\<forall>j. i \<le> j \<and> j < m \<longrightarrow> wmax self j i - wmin self j i \<noteq> int i)"
  using assms
proof (induction m arbitrary: st)
  case 0
  then show ?case
    by (cases st) (auto simp: round_state_def)
next
  case (Suc m)
  obtain mins maxs where st: "st = (mins, maxs)" by (cases st)
  show ?case
  proof (cases "i \<le> m")
    case False
    with Suc.prems st show ?thesis
      by (auto simp: round_state_def not_le less_Suc_eq_le)
  next
    case True
    then have u: "rev [i..<Suc m] = m # rev [i..<m]" by simp
    from Suc.prems have ml: "m < length self" by simp
    let ?mins = "mins[m := min (mins ! (m - 1)) (self ! m)]"
    let ?maxs = "maxs[m := max (maxs ! (m - 1)) (self ! m)]"
    from Suc.prems(3) st have
      low: "\<forall>k. i - 1 \<le> k \<and> k < Suc m \<longrightarrow>
               mins ! k = wmin self k (i - 1) \<and> maxs ! k = wmax self k (i - 1)"
      and len: "length mins = length self" "length maxs = length self"
      by (auto simp: round_state_def)
    from True \<open>1 \<le> i\<close> have "i - 1 \<le> m - 1 \<and> m - 1 < Suc m" by arith
    with low have
      prev: "mins ! (m - 1) = wmin self (m - 1) (i - 1)" "maxs ! (m - 1) = wmax self (m - 1) (i - 1)"
      by blast+
    from prev wmin_step[OF \<open>1 \<le> i\<close> True ml] wmax_step[OF \<open>1 \<le> i\<close> True ml] len ml
    have at: "?mins ! m = wmin self m i" "?maxs ! m = wmax self m i" by simp_all
    show ?thesis
    proof (cases "?maxs ! m - ?mins ! m = int i")
      case t: True
      then have "simple_location_inner self i (rev [i..<Suc m]) st = Inl (i, m)"
        unfolding u st by (simp add: Let_def)
      with t at True show ?thesis by simp
    next
      case f: False
      then have e: "simple_location_inner self i (rev [i..<Suc m]) st
          = simple_location_inner self i (rev [i..<m]) (?mins, ?maxs)"
        unfolding u st by (simp add: Let_def)
      have rs: "round_state self i m (?mins, ?maxs)"
        using Suc.prems(3) st at len ml
        by (auto simp: round_state_def nth_list_update less_Suc_eq_le)
      from ml have "m \<le> length self" by simp
      from Suc.IH[OF \<open>1 \<le> i\<close> this rs] f at show ?thesis
        unfolding e by (auto split: sum.splits simp: less_Suc_eq)
    qed
  qed
qed


lemma round_state_start: "round_state self 1 (length self) (self, self)"
  by (simp add: round_state_def wmin_zero wmax_zero)

lemma simple_location_outer_rounds:
  assumes "1 \<le> a" and "round_state self a (length self) st"
  shows "simple_location_outer self [a..<b] st = r \<Longrightarrow>
     (r = (0, 0) \<and> (\<forall>i j. a \<le> i \<and> i < b \<and> i \<le> j \<and> j < length self
                        \<longrightarrow> wmax self j i - wmin self j i \<noteq> int i))
     \<or> (a \<le> fst r \<and> fst r < b \<and> fst r \<le> snd r \<and> snd r < length self
          \<and> wmax self (snd r) (fst r) - wmin self (snd r) (fst r) = int (fst r))"
  using assms
proof (induction "b - a" arbitrary: a st)
  case 0
  obtain mins maxs where "st = (mins, maxs)" by (cases st)
  with 0 show ?case by auto
next
  case (Suc d)
  obtain mins maxs where st: "st = (mins, maxs)" by (cases st)
  from Suc.hyps(2) have ab: "a < b" by simp
  then have u: "[a..<b] = a # [Suc a..<b]" by (rule upt_conv_Cons)
  note inner = simple_location_inner_round[OF Suc.prems(2) le_refl Suc.prems(3)]
  show ?case
  proof (cases "simple_location_inner self a (rev [a..<length self]) st")
    case (Inl r')
    with Suc.prems(1) u st have "r = r'" by simp
    with inner Inl ab show ?thesis by simp
  next
    case (Inr st')
    with inner have rs: "round_state self (Suc a) (length self) st'"
      and no: "\<forall>j. a \<le> j \<and> j < length self \<longrightarrow> wmax self j a - wmin self j a \<noteq> int a"
      by simp_all
    from Inr Suc.prems(1) u st have o: "simple_location_outer self [Suc a..<b] st' = r" by simp
    from Suc.hyps(2) have d: "d = b - Suc a" by simp
    have "1 \<le> Suc a" by simp
    from Suc.hyps(1)[OF d o this rs]
    have "(r = (0, 0) \<and> (\<forall>i j. Suc a \<le> i \<and> i < b \<and> i \<le> j \<and> j < length self
                        \<longrightarrow> wmax self j i - wmin self j i \<noteq> int i))
     \<or> (Suc a \<le> fst r \<and> fst r < b \<and> fst r \<le> snd r \<and> snd r < length self
          \<and> wmax self (snd r) (fst r) - wmin self (snd r) (fst r) = int (fst r))" .
    then show ?thesis
    proof
      assume h: "r = (0, 0) \<and> (\<forall>i j. Suc a \<le> i \<and> i < b \<and> i \<le> j \<and> j < length self
                        \<longrightarrow> wmax self j i - wmin self j i \<noteq> int i)"
      have "\<forall>i j. a \<le> i \<and> i < b \<and> i \<le> j \<and> j < length self
                        \<longrightarrow> wmax self j i - wmin self j i \<noteq> int i"
      proof (intro allI impI)
        fix i j assume ij: "a \<le> i \<and> i < b \<and> i \<le> j \<and> j < length self"
        show "wmax self j i - wmin self j i \<noteq> int i"
        proof (cases "i = a")
          case True with no ij show ?thesis by simp
        next
          case False with h ij show ?thesis by simp
        qed
      qed
      with h show ?thesis by simp
    next
      assume "Suc a \<le> fst r \<and> fst r < b \<and> fst r \<le> snd r \<and> snd r < length self
          \<and> wmax self (snd r) (fst r) - wmin self (snd r) (fst r) = int (fst r)"
      then show ?thesis by simp
    qed
  qed
qed

lemma simple_location_cases:
  obtains (none) "simple_location self = (0, 0)"
      "\<forall>i j. 1 \<le> i \<and> i < length self - 1 \<and> i \<le> j \<and> j < length self
               \<longrightarrow> \<not> is_interval self (j - i) (Suc i)"
    | (found) "1 \<le> fst (simple_location self)" "fst (simple_location self) < length self - 1"
      "fst (simple_location self) \<le> snd (simple_location self)"
      "snd (simple_location self) < length self"
      "is_interval self (snd (simple_location self) - fst (simple_location self))
          (Suc (fst (simple_location self)))"
proof -
  have "simple_location_outer self [1..<length self - 1] (self, self) = simple_location self"
    by (simp add: simple_location_def)
  from simple_location_outer_rounds[OF le_refl round_state_start this]
  show thesis
  proof
    assume h: "simple_location self = (0, 0) \<and>
      (\<forall>i j. 1 \<le> i \<and> i < length self - 1 \<and> i \<le> j \<and> j < length self
            \<longrightarrow> wmax self j i - wmin self j i \<noteq> int i)"
    then have "\<forall>i j. 1 \<le> i \<and> i < length self - 1 \<and> i \<le> j \<and> j < length self
               \<longrightarrow> \<not> is_interval self (j - i) (Suc i)"
      using window_is_interval by blast
    with h show thesis by (intro none) simp_all
  next
    assume h: "1 \<le> fst (simple_location self) \<and> fst (simple_location self) < length self - 1 \<and>
      fst (simple_location self) \<le> snd (simple_location self) \<and>
      snd (simple_location self) < length self \<and>
      wmax self (snd (simple_location self)) (fst (simple_location self))
        - wmin self (snd (simple_location self)) (fst (simple_location self))
        = int (fst (simple_location self))"
    then have "is_interval self (snd (simple_location self) - fst (simple_location self))
          (Suc (fst (simple_location self)))"
      using window_is_interval by blast
    with h show thesis by (intro found) simp_all
  qed
qed

text \<open>A list is simple when no window of \<open>2\<close> to \<open>n - 1\<close> entries is an interval.\<close>

definition no_interval :: "int list \<Rightarrow> bool" where
  "no_interval self =
     (\<forall>i j. 2 \<le> i \<and> i < length self \<and> j + i \<le> length self \<longrightarrow> \<not> is_interval self j i)"

lemma simple_location_none_iff: "simple_location self = (0, 0) \<longleftrightarrow> no_interval self"
proof (cases self rule: simple_location_cases)
  case none
  have "no_interval self"
    unfolding no_interval_def
  proof (intro allI impI)
    fix i j assume a: "2 \<le> i \<and> i < length self \<and> j + i \<le> length self"
    then have "1 \<le> i - 1 \<and> i - 1 < length self - 1 \<and> i - 1 \<le> j + i - 1 \<and> j + i - 1 < length self"
      by arith
    with none(2) have "\<not> is_interval self (j + i - 1 - (i - 1)) (Suc (i - 1))" by blast
    moreover from a have "j + i - 1 - (i - 1) = j" "Suc (i - 1) = i" by arith+
    ultimately show "\<not> is_interval self j i" by simp
  qed
  with none(1) show ?thesis by simp
next
  case found
  let ?i = "fst (simple_location self)" and ?j = "snd (simple_location self)"
  from found have "2 \<le> Suc ?i \<and> Suc ?i < length self \<and> (?j - ?i) + Suc ?i \<le> length self"
    by arith
  with found(5) have "\<not> no_interval self" unfolding no_interval_def by blast
  moreover from found(1) have "simple_location self \<noteq> (0, 0)" by auto
  ultimately show ?thesis by simp
qed

lemma maximal_interval_cases:
  obtains (none) "maximal_interval self = (0, 0)" "no_interval self"
    | (found) "2 \<le> fst (maximal_interval self)" "fst (maximal_interval self) < length self"
        "snd (maximal_interval self) + fst (maximal_interval self) \<le> length self"
        "is_interval self (snd (maximal_interval self)) (fst (maximal_interval self))"
        "\<forall>j'. j' < snd (maximal_interval self) \<longrightarrow> \<not> is_interval self j' (fst (maximal_interval self))"
        "\<forall>i j. fst (maximal_interval self) < i \<and> i < length self \<and> j + i \<le> length self
            \<longrightarrow> \<not> is_interval self j i"
proof -
  have "maximal_interval_outer self (rev [2..<length self]) = maximal_interval self"
    by (simp add: maximal_interval_def)
  from maximal_interval_outer_down[OF le_refl this]
  show thesis
  proof
    assume "maximal_interval self = (0, 0) \<and> (\<forall>i. 2 \<le> i \<and> i < length self \<longrightarrow> no_window self i)"
    then show thesis by (intro none) (auto simp: no_interval_def no_window_def)
  next
    assume h: "2 \<le> fst (maximal_interval self) \<and> fst (maximal_interval self) < length self \<and>
      snd (maximal_interval self) + fst (maximal_interval self) \<le> length self \<and>
      is_interval self (snd (maximal_interval self)) (fst (maximal_interval self)) \<and>
      (\<forall>j'. j' < snd (maximal_interval self) \<longrightarrow> \<not> is_interval self j' (fst (maximal_interval self))) \<and>
      (\<forall>i. fst (maximal_interval self) < i \<and> i < length self \<longrightarrow> no_window self i)"
    show thesis by (rule found) (use h in \<open>auto simp: no_window_def\<close>)
  qed
qed

lemma maximal_interval_none_iff: "maximal_interval self = (0, 0) \<longleftrightarrow> no_interval self"
proof (cases self rule: maximal_interval_cases)
  case none
  then show ?thesis by simp
next
  case found
  then have "\<not> no_interval self" unfolding no_interval_def by blast
  moreover from found(1) have "maximal_interval self \<noteq> (0, 0)" by auto
  ultimately show ?thesis by simp
qed

lemma is_simple_iff: "is_simple self \<longleftrightarrow> no_interval self"
proof -
  have "is_simple self \<longleftrightarrow> fst (simple_location self) = 0"
    by (simp add: is_simple_def split: prod.splits)
  also have "\<dots> \<longleftrightarrow> simple_location self = (0, 0)"
    by (cases self rule: simple_location_cases) auto
  finally show ?thesis by (simp add: simple_location_none_iff)
qed

lemma not_simple_maximal_interval:
  assumes "\<not> is_simple self"
  shows "2 \<le> fst (maximal_interval self)"
  using assms
  by (cases self rule: maximal_interval_cases) (simp_all add: is_simple_iff)


section \<open>Standardization returns a permutation\<close>

lemma filter_length_strict:
  assumes "\<And>y. P y \<Longrightarrow> Q y" and "x \<in> set L" and "Q x" and "\<not> P x"
  shows "length (filter P L) < length (filter Q L)"
  using assms(2)
proof (induction L)
  case Nil
  then show ?case by simp
next
  case (Cons a L)
  have le: "length (filter P L) \<le> length (filter Q L)"
  proof (induction L)
    case Nil show ?case by simp
  next
    case (Cons b L) with assms(1) show ?case by auto
  qed
  show ?case
  proof (cases "x \<in> set L")
    case True
    with Cons.IH assms(1) show ?thesis by auto
  next
    case False
    with Cons.prems have "a = x" by simp
    with assms(3,4) le show ?thesis by simp
  qed
qed

lemma rank_in_strict_mono:
  assumes "x \<in> set L" and "x < y"
  shows "rank_in L x < rank_in L y"
  unfolding rank_in_def
  by (rule filter_length_strict[where x = x]) (use assms in auto)

lemma rank_in_less_length:
  assumes "x \<in> set L"
  shows "rank_in L x < length L"
  unfolding rank_in_def using assms by (intro length_filter_less[where x = x]) simp_all

lemma standardize_is_perm:
  assumes "distinct L" and "standardize L = Inr r"
  shows "is_perm r"
proof -
  from assms standardize_rank have r: "r = map (\<lambda>x. int (rank_in L x)) L" by simp
  have inj: "inj_on (\<lambda>x. int (rank_in L x)) (set L)"
  proof (rule inj_onI)
    fix x y assume "x \<in> set L" "y \<in> set L" "int (rank_in L x) = int (rank_in L y)"
    with rank_in_strict_mono[of x L y] rank_in_strict_mono[of y L x] show "x = y"
      by (cases x y rule: linorder_cases) auto
  qed
  with assms(1) have d: "distinct r" unfolding r by (simp add: distinct_map)
  have sub: "set r \<subseteq> {0..<int (length r)}"
    unfolding r using rank_in_less_length by auto
  have "card (set r) = card {0..<int (length r)}" using d by (simp add: distinct_card)
  with sub have "set r = {0..<int (length r)}" by (intro card_subset_eq) simp_all
  with d show ?thesis by (simp add: is_perm_iff_int)
qed

lemma is_perm_distinct: "is_perm p \<Longrightarrow> distinct p"
  by (simp add: is_perm_iff)

section \<open>Domain violations\<close>

lemma pow_negative: "e < 0 \<Longrightarrow> pow p (PyInt e) = Inl ValueError"
  by (simp add: pow_def)

text \<open>
  Claim C7, as the code has it.  \<open>delete(idx)\<close> raises \<open>IndexError\<close> when \<open>idx\<close> is
  outside \<open>[-len(p), len(p) - 1]\<close>, the range of Python indices; \<open>p ** e\<close> raises
  \<open>ValueError\<close> when \<open>e\<close> is a negative integer or not an integer.  \<open>insert(idx, val)\<close>
  has no range check: the slices \<open>p[:idx]\<close> and \<open>p[idx:]\<close> clamp, and for every
  permutation \<open>p\<close>, every \<open>idx\<close> and every \<open>val\<close> it returns a permutation of length
  \<open>len(p) + 1\<close>.
\<close>

theorem domain_violations:
  "(\<not> (- int (length p) \<le> idx \<and> idx < int (length p)) \<longrightarrow> delete p idx = Inl IndexError)
   \<and> (e < 0 \<longrightarrow> pow p (PyInt e) = Inl ValueError)
   \<and> pow p PyNonInt = Inl ValueError
   \<and> (is_perm p \<longrightarrow>
        (\<exists>r. insert_perm p idx val = Inr r \<and> is_perm r \<and> length r = length p + 1))"
proof (intro conjI impI)
  assume "\<not> (- int (length p) \<le> idx \<and> idx < int (length p))"
  then show "delete p idx = Inl IndexError"
    by (simp add: delete_def py_del_out_of_range)
next
  assume "e < 0" then show "pow p (PyInt e) = Inl ValueError" by (rule pow_negative)
next
  show "pow p PyNonInt = Inl ValueError" by (simp add: pow_def)
next
  assume "is_perm p"
  then have "distinct p" by (simp add: is_perm_iff)
  then have d: "distinct (py_slice_to (map (shift_up val) p) idx @ [val]
                    @ py_slice_from (map (shift_up val) p) idx)"
    by (rule inserted_distinct)
  from standardize_rank[OF d]
  obtain r where r: "insert_perm p idx val = Inr r"
    unfolding insert_perm_unfold by blast
  then have l: "length r = Suc (length p)"
    unfolding insert_perm_unfold using standardize_length inserted_length by metis
  from r have "is_perm r"
    unfolding insert_perm_unfold by (rule standardize_is_perm[OF d])
  with r l
  show "\<exists>r. insert_perm p idx val = Inr r \<and> is_perm r \<and> length r = length p + 1"
    by simp
qed

text \<open>The three parts at \<open>p = 1 2 3\<close>, \<open>idx = 7\<close>, \<open>e = -1\<close>, \<open>val = 1\<close>.\<close>

theorem domain_violations_witness:
  "delete [0, 1, 2] 7 = Inl IndexError \<and> pow [0, 1, 2] (PyInt (- 1)) = Inl ValueError
   \<and> pow [0, 1, 2] PyNonInt = Inl ValueError
   \<and> is_perm [0, 1, 2]
   \<and> (\<exists>r. insert_perm [0, 1, 2] 7 1 = Inr r \<and> is_perm r \<and> length r = 4)"
proof -
  have h: "is_perm [0, 1, 2]" by (simp add: is_perm_def)
  from domain_violations[of "[0, 1, 2]" 7 "- 1" 1] h show ?thesis
    by (simp add: eval_nat_numeral)
qed

text \<open>Claim C7 as stated fails: \<open>insert\<close> with index \<open>10\<close>, outside \<open>[0, 3]\<close>, returns
  a value.\<close>

theorem insert_out_of_range_returns: "insert_perm [0, 1, 2] 10 1 = Inr [0, 2, 3, 1]"
  by code_simp

text \<open>The valid range of \<open>delete\<close> is the range of Python indices, negative ones included:
  \<open>delete(-1)\<close> removes the last entry.\<close>

lemma delete_negative_index_returns: "delete [0, 1, 2] (- 1) = Inr [0, 1]"
  by code_simp

section \<open>\<open>decomposition\<close> returns\<close>

lemma Permutation_perm_arg: "Permutation_new (PermArg t) None = Inr t"
  by (simp add: Permutation_new.simps truthy_def)

lemma singleton_components:
  "py_map (\<lambda>i. standardize [1]) xs = Inr (replicate (length xs) [0])"
proof -
  have "standardize [1] = Inr [0]" by (simp add: standardize_def)
  then have "py_map (\<lambda>i. standardize [1]) xs = Inr (map (\<lambda>i. [0]) xs)"
    by (intro py_map_total) simp
  then show ?thesis by (simp add: map_replicate_const)
qed

lemma contracted_distinct:
  assumes "distinct base" and "j + i \<le> length base" and "1 \<le> i"
  shows "distinct (slice base 0 j @ [base ! j] @ slice base (i + j) (length base))"
proof -
  from assms have jl: "j < length base" by simp
  have "base = take j base @ [base ! j] @ drop (Suc j) base"
    using jl by (simp add: id_take_nth_drop[symmetric])
  also have "drop (Suc j) base = take (i - 1) (drop (Suc j) base) @ drop (i - 1) (drop (Suc j) base)"
    by (rule append_take_drop_id[symmetric])
  also have "drop (i - 1) (drop (Suc j) base) = drop (i + j) base"
  proof -
    from assms(3) have "i - 1 + Suc j = i + j" by simp
    then show ?thesis by (simp only: drop_drop)
  qed
  finally have "distinct (take j base @ [base ! j]
      @ take (i - 1) (drop (Suc j) base) @ drop (i + j) base)"
    using assms(1) by simp
  then have "distinct (take j base @ [base ! j] @ drop (i + j) base)" by auto
  then show ?thesis by (simp add: slice_def)
qed

lemma slice_distinct: "distinct xs \<Longrightarrow> distinct (slice xs a b)"
  by (simp add: slice_def)

lemma contracted_length:
  assumes "j + i \<le> length xs"
  shows "length (slice xs 0 j @ [y] @ slice xs (i + j) (length xs)) = Suc (length xs - i)"
  using assms by (simp add: slice_def)

lemma decomposition_while_unfold:
  assumes "\<not> is_simple base" and "length components = length base"
    and "maximal_interval base = (i, j)"
    and "standardize (slice base j (i + j)) = Inr c"
    and "standardize (slice base 0 j @ [base ! j] @ slice base (i + j) (length base)) = Inr b"
  shows "decomposition_while base components =
     decomposition_while b
       (slice components 0 j @ [c] @ slice components (i + j) (length base))"
proof -
  from not_simple_maximal_interval[OF assms(1)] assms(3) have "i \<noteq> 0" by simp
  with assms show ?thesis
    by (subst decomposition_while.simps) (simp add: Let_def)
qed

lemma decomposition_while_returns:
  assumes "distinct base" and "length components = length base"
  shows "\<exists>b c. decomposition_while base components = Inr (b, c) \<and> is_simple b
                 \<and> length c = length b"
  using assms
proof (induction "length base" arbitrary: base components rule: less_induct)
  case less
  show ?case
  proof (cases "is_simple base")
    case True
    with less.prems show ?thesis by (subst decomposition_while.simps) simp
  next
    case False
    obtain i j where mi: "maximal_interval base = (i, j)" by (cases "maximal_interval base")
    from not_simple_maximal_interval[OF False] mi have i2: "2 \<le> i" by simp
    from maximal_interval_range[OF mi] i2 have rg: "i < length base" "i + j \<le> length base"
      by simp_all
    let ?interval = "slice base j (i + j)"
    let ?new_base = "slice base 0 j @ [base ! j] @ slice base (i + j) (length base)"
    from standardize_rank[OF slice_distinct[OF less.prems(1)]]
    obtain c where c: "standardize ?interval = Inr c" by blast
    have dn: "distinct ?new_base"
      using less.prems(1) rg i2 by (intro contracted_distinct) simp_all
    from standardize_rank[OF dn] obtain b where b: "standardize ?new_base = Inr b" by blast
    let ?new_components = "slice components 0 j @ [c] @ slice components (i + j) (length base)"
    have lb: "length b = Suc (length base - i)"
      using standardize_length[OF b] rg contracted_length[of j i base "base ! j"]
      by (simp add: add.commute)
    have lc: "length ?new_components = Suc (length base - i)"
      using contracted_length[of j i components c] rg less.prems(2)
      by (simp add: add.commute)
    have "length b < length base" using lb i2 rg by simp
    moreover have "distinct b" using standardize_is_perm[OF dn b] by (rule is_perm_distinct)
    moreover have "length ?new_components = length b" using lb lc by simp
    ultimately have "\<exists>b' c'. decomposition_while b ?new_components = Inr (b', c')
        \<and> is_simple b' \<and> length c' = length b'"
      by (rule less.hyps)
    then show ?thesis
      unfolding decomposition_while_unfold[OF False less.prems(2) mi c b] .
  qed
qed

lemma decomposition_returns:
  assumes "is_perm p"
  shows "\<exists>b c. decomposition p = Inr (b, c) \<and> is_simple b \<and> length c = length b"
proof -
  have "decomposition p = decomposition_while p (replicate (length p) [0])"
    by (simp add: decomposition_def Permutation_perm_arg singleton_components)
  with decomposition_while_returns[OF is_perm_distinct[OF assms], of "replicate (length p) [0]"]
  show ?thesis by simp
qed

text \<open>
  Claim C10.  For every sequence, \<open>simple_location()\<close> returns \<open>(0, 0)\<close> exactly when
  \<open>maximal_interval()\<close> does; when \<open>is_simple()\<close> is false, \<open>maximal_interval()\<close> returns
  a length of at least \<open>2\<close>; and for every permutation \<open>decomposition()\<close> returns a
  pair: neither assertion of its loop fails and the loop ends.
\<close>

theorem interval_detectors_agree:
  "(simple_location self = (0, 0) \<longleftrightarrow> maximal_interval self = (0, 0))
   \<and> (\<not> is_simple self \<longrightarrow> 2 \<le> fst (maximal_interval self))
   \<and> (is_perm self \<longrightarrow> (\<exists>b c. decomposition self = Inr (b, c)))"
proof (intro conjI impI)
  show "simple_location self = (0, 0) \<longleftrightarrow> maximal_interval self = (0, 0)"
    by (simp add: simple_location_none_iff maximal_interval_none_iff)
next
  assume "\<not> is_simple self"
  then show "2 \<le> fst (maximal_interval self)" by (rule not_simple_maximal_interval)
next
  assume "is_perm self"
  from decomposition_returns[OF this] show "\<exists>b c. decomposition self = Inr (b, c)" by blast
qed

text \<open>The three parts at \<open>3 1 2 4\<close>, which is not simple.\<close>

theorem interval_detectors_agree_witness:
  "simple_location [2, 0, 1, 3] \<noteq> (0, 0) \<and> maximal_interval [2, 0, 1, 3] \<noteq> (0, 0)
   \<and> \<not> is_simple [2, 0, 1, 3] \<and> 2 \<le> fst (maximal_interval [2, 0, 1, 3])
   \<and> is_perm [2, 0, 1, 3] \<and> (\<exists>b c. decomposition [2, 0, 1, 3] = Inr (b, c))"
proof -
  have a: "simple_location [2, 0, 1, 3] \<noteq> (0, 0)" by code_simp
  have b: "\<not> is_simple [2, 0, 1, 3]" by code_simp
  have c: "is_perm [2, 0, 1, 3]" by (simp add: is_perm_def)
  from interval_detectors_agree[of "[2, 0, 1, 3]"] a b c show ?thesis by simp
qed



section \<open>The index bijection\<close>

lemma swap_length [simp]: "length (swap xs i j) = length xs"
  by (simp add: swap_def Let_def)

lemma swap_nth:
  assumes "i < length xs" and "j < length xs" and "k < length xs"
  shows "swap xs i j ! k = (if k = i then xs ! j else if k = j then xs ! i else xs ! k)"
  using assms by (auto simp: swap_def Let_def nth_list_update)

lemma swap_same [simp]: "swap xs i i = xs"
  by (simp add: swap_def Let_def)

lemma swap_is_perm:
  assumes "is_perm xs" and "i < length xs" and "j < length xs"
  shows "is_perm (swap xs i j)"
  using assms by (simp add: is_perm_iff swap_def Let_def)

lemma is_perm_nth_range:
  assumes "is_perm q" and "s < length q"
  shows "0 \<le> q ! s \<and> q ! s < int (length q)"
proof -
  from assms(2) have "q ! s \<in> set q" by simp
  with assms(1) show ?thesis by (simp add: is_perm_iff_int)
qed

lemma is_perm_nth_inj:
  assumes "is_perm q" and "s < length q" and "t < length q" and "q ! s = q ! t"
  shows "s = t"
  using assms by (simp add: is_perm_iff nth_eq_iff_index_eq)

lemma py_index_found:
  assumes "x \<in> set xs"
  shows "\<exists>t. py_index xs x = Inr t \<and> t < length xs \<and> xs ! t = x"
  using assms
proof (induction xs)
  case Nil
  then show ?case by simp
next
  case (Cons a xs)
  show ?case
  proof (cases "a = x")
    case True
    then show ?thesis by simp
  next
    case False
    with Cons obtain t where "py_index xs x = Inr t" "t < length xs" "xs ! t = x" by auto
    with False show ?thesis by simp
  qed
qed

lemma ind2perm_loop_step:
  "ind2perm_loop (rev [1..<Suc (Suc m)]) k xs =
     ind2perm_loop (rev [1..<Suc m]) (k div int (Suc m)) (swap xs m (nat (k mod int (Suc m))))"
  by (simp add: Let_def)

lemma perm2ind_loop_step:
  assumes "1 \<le> m"
  shows "perm2ind_loop (rev [1..<Suc m]) q r mu =
     (case py_index q (int m) of
        Inl e \<Rightarrow> Inl e
      | Inr t \<Rightarrow> perm2ind_loop (rev [1..<m]) (swap q m t) (r + q ! m * mu) (mu * (int m + 1)))"
  using assms by (simp split: sum.splits)

lemma ind2perm_loop_is_perm:
  assumes "is_perm xs" and "m \<le> length xs"
  shows "is_perm (ind2perm_loop (rev [1..<Suc m]) k xs) \<and>
         length (ind2perm_loop (rev [1..<Suc m]) k xs) = length xs"
  using assms
proof (induction m arbitrary: k xs)
  case 0
  then show ?case by simp
next
  case (Suc m)
  have "nat (k mod int (Suc m)) < Suc m"
    by (metis Euclidean_Rings.pos_mod_bound Euclidean_Rings.pos_mod_sign nat_less_iff of_nat_0_less_iff zero_less_Suc)
  with Suc.prems have "is_perm (swap xs m (nat (k mod int (Suc m))))"
    by (intro swap_is_perm) simp_all
  with Suc.IH[of "swap xs m (nat (k mod int (Suc m)))" "k div int (Suc m)"] Suc.prems(2)
  show ?case unfolding ind2perm_loop_step by simp
qed

lemma identity_rearranges:
  assumes "q = map int [0..<length q]"
  shows "\<forall>xs. length xs = length q \<longrightarrow> xs = map (\<lambda>v. xs ! nat v) q"
proof (intro allI impI)
  fix xs :: "'a list" assume l: "length xs = length q"
  have "map (\<lambda>v. xs ! nat v) q = map (\<lambda>v. xs ! nat v) (map int [0..<length q])"
    using assms by simp
  also have "\<dots> = map (\<lambda>i. xs ! i) [0..<length xs]" by (simp add: l comp_def)
  also have "\<dots> = xs" by (rule map_nth)
  finally show "xs = map (\<lambda>v. xs ! nat v) q" by simp
qed

text \<open>
  A permutation \<open>q\<close> that fixes every position from \<open>m\<close> on has an index below \<open>m!\<close>,
  and the swaps this index stands for rearrange any list the way \<open>q\<close> says.
\<close>

lemma perm2ind_loop_code:
  assumes "is_perm q" and "m \<le> length q" and "\<forall>s. m \<le> s \<and> s < length q \<longrightarrow> q ! s = int s"
  shows "\<exists>K. perm2ind_loop (rev [1..<m]) q r mu = Inr (r + mu * K) \<and> 0 \<le> K \<and> K < fact m
            \<and> (\<forall>xs. length xs = length q \<longrightarrow>
                  ind2perm_loop (rev [1..<Suc m]) K xs = map (\<lambda>v. xs ! nat v) q)"
  using assms
proof (induction m arbitrary: q r mu)
  case 0
  have "q = map int [0..<length q]"
    using 0(3) by (intro nth_equalityI) simp_all
  then have "\<forall>xs. length xs = length q \<longrightarrow> xs = map (\<lambda>v. xs ! nat v) q"
      by (rule identity_rearranges)
  then show ?case by (intro exI[of _ 0]) simp
next
  case (Suc m)
  show ?case
  proof (cases "m = 0")
    case True
    have "q ! 0 = 0" if "0 < length q"
    proof -
      have "0 \<in> set q" using Suc.prems(1) that by (simp add: is_perm_iff_int)
      then obtain s where s: "s < length q" "q ! s = 0"
        by (auto simp: in_set_conv_nth)
      show ?thesis
      proof (cases "s = 0")
        case True with s show ?thesis by simp
      next
        case False
        with s Suc.prems(3) True have "q ! s = int s" by simp
        with s False show ?thesis by simp
      qed
    qed
    with Suc.prems(3) True have "\<forall>s. s < length q \<longrightarrow> q ! s = int s"
    proof (intro allI impI)
      fix s assume a: "\<forall>s. Suc m \<le> s \<and> s < length q \<longrightarrow> q ! s = int s" "m = 0"
        "0 < length q \<Longrightarrow> q ! 0 = 0" "s < length q"
      show "q ! s = int s"
      proof (cases "s = 0")
        case True with a(3,4) show ?thesis by simp
      next
        case False with a(1,2,4) show ?thesis by simp
      qed
    qed
    then have "q = map int [0..<length q]"
      by (intro nth_equalityI) simp_all
    then have "\<forall>xs. length xs = length q \<longrightarrow> xs = map (\<lambda>v. xs ! nat v) q"
      by (rule identity_rearranges)
    with True show ?thesis by (intro exI[of _ 0]) (simp add: Let_def)
  next
    case False
    then have m1: "1 \<le> m" by simp
    from Suc.prems(2) have ml: "m < length q" by simp
    let ?n = "length q"
    have iq: "int m \<in> set q" using Suc.prems(1) ml by (simp add: is_perm_iff_int)
    from py_index_found[OF this] obtain t where
      t: "py_index q (int m) = Inr t" "t < ?n" "q ! t = int m" by blast
    have tm: "t \<le> m"
    proof (rule ccontr)
      assume "\<not> t \<le> m"
      with Suc.prems(3) t(2) have "q ! t = int t" by simp
      with t(3) \<open>\<not> t \<le> m\<close> show False by simp
    qed
    define v where "v = q ! m"
    have v0: "0 \<le> v" "v < int ?n" using is_perm_nth_range[OF Suc.prems(1) ml] by (simp_all add: v_def)
    have vm: "v \<le> int m"
    proof (rule ccontr)
      assume a: "\<not> v \<le> int m"
      with v0 have "Suc m \<le> nat v \<and> nat v < ?n" by auto
      with Suc.prems(3) have "q ! nat v = int (nat v)" by blast
      with v0 have "q ! nat v = q ! m" by (simp add: v_def)
      with is_perm_nth_inj[OF Suc.prems(1) _ ml this] v0 have "nat v = m" by simp
      with a v0 show False by simp
    qed
    let ?q' = "swap q m t"
    have pq': "is_perm ?q'" using Suc.prems(1) ml t(2) by (rule swap_is_perm)
    have lq': "length ?q' = ?n" by simp
    have fix': "\<forall>s. m \<le> s \<and> s < length ?q' \<longrightarrow> ?q' ! s = int s"
    proof (intro allI impI)
      fix s assume s: "m \<le> s \<and> s < length ?q'"
      show "?q' ! s = int s"
      proof (cases "s = m")
        case True
        with ml t show ?thesis by (simp add: swap_nth)
      next
        case False
        with s tm have "s \<noteq> t" "Suc m \<le> s" by simp_all
        with s False ml t(2) Suc.prems(3) show ?thesis by (simp add: swap_nth)
      qed
    qed
    from Suc.IH[OF pq' _ fix', of "r + q ! m * mu" "mu * (int m + 1)"] ml
    obtain K' where K': "perm2ind_loop (rev [1..<m]) ?q' (r + q ! m * mu) (mu * (int m + 1))
          = Inr (r + q ! m * mu + mu * (int m + 1) * K')"
      "0 \<le> K'" "K' < fact m"
      "\<forall>xs. length xs = ?n \<longrightarrow>
          ind2perm_loop (rev [1..<Suc m]) K' xs = map (\<lambda>u. xs ! nat u) ?q'"
      by auto
    define K where "K = v + int (Suc m) * K'"
    have Kmod: "K mod int (Suc m) = v" using v0 vm by (simp add: K_def)
    have Kdiv: "K div int (Suc m) = K'" using v0 vm by (simp add: K_def)
    have K0: "0 \<le> K" using v0 K'(2) by (simp add: K_def)
    have Kf: "K < fact (Suc m)"
    proof -
      from K'(3) have "K' + 1 \<le> fact m" by simp
      then have "int (Suc m) * (K' + 1) \<le> int (Suc m) * fact m"
        by (intro mult_left_mono) simp_all
      then have "int (Suc m) * K' + int (Suc m) \<le> fact (Suc m)"
        by (simp add: algebra_simps)
      with vm show ?thesis by (simp add: K_def)
    qed
    have res: "perm2ind_loop (rev [1..<Suc m]) q r mu = Inr (r + mu * K)"
      unfolding perm2ind_loop_step[OF m1] t(1) using K'(1)
      by (simp add: K_def v_def algebra_simps)
    have re: "\<forall>xs. length xs = ?n \<longrightarrow>
          ind2perm_loop (rev [1..<Suc (Suc m)]) K xs = map (\<lambda>u. xs ! nat u) q"
    proof (intro allI impI)
      fix xs :: "int list" assume lx: "length xs = ?n"
      let ?xs' = "swap xs m (nat v)"
      have nv: "nat v < ?n" using v0 by simp
      have "ind2perm_loop (rev [1..<Suc (Suc m)]) K xs = ind2perm_loop (rev [1..<Suc m]) K' ?xs'"
        unfolding ind2perm_loop_step Kmod Kdiv ..
      also have "\<dots> = map (\<lambda>u. ?xs' ! nat u) ?q'" using K'(4) lx by simp
      also have "\<dots> = map (\<lambda>u. xs ! nat u) q"
      proof (rule nth_equalityI)
        show "length (map (\<lambda>u. ?xs' ! nat u) ?q') = length (map (\<lambda>u. xs ! nat u) q)" by simp
      next
        fix s assume "s < length (map (\<lambda>u. ?xs' ! nat u) ?q')"
        then have s: "s < ?n" by simp
        have "?xs' ! nat (?q' ! s) = xs ! nat (q ! s)"
        proof (cases "s = m")
          case True
          with ml t lx nv show ?thesis by (simp add: swap_nth v_def)
        next
          case sm: False
          show ?thesis
          proof (cases "s = t")
            case True
            with sm ml t lx nv show ?thesis by (simp add: swap_nth v_def)
          next
            case st: False
            have a: "?q' ! s = q ! s" using s sm st ml t(2) by (simp add: swap_nth)
            have r: "0 \<le> q ! s" "q ! s < int ?n" using is_perm_nth_range[OF Suc.prems(1) s] by simp_all
            have "q ! s \<noteq> int m"
              using is_perm_nth_inj[OF Suc.prems(1) s t(2)] t(3) st by auto
            moreover have "q ! s \<noteq> v"
              using is_perm_nth_inj[OF Suc.prems(1) s ml] sm by (auto simp: v_def)
            ultimately have "nat (q ! s) \<noteq> m" "nat (q ! s) \<noteq> nat v" using r v0 by auto
            with a r lx ml nv show ?thesis by (simp add: swap_nth)
          qed
        qed
        with s show "map (\<lambda>u. ?xs' ! nat u) ?q' ! s = map (\<lambda>u. xs ! nat u) q ! s" by simp
      qed
      finally show "ind2perm_loop (rev [1..<Suc (Suc m)]) K xs = map (\<lambda>u. xs ! nat u) q" .
    qed
    from res K0 Kf re show ?thesis by blast
  qed
qed


lemma identity_is_perm: "is_perm (map int [0..<n])"
  by (simp add: is_perm_iff distinct_map)

lemma ind2perm_unfold:
  "ind2perm k (int n) = standardize (ind2perm_loop (rev [1..<Suc n]) k (map int [0..<n]))"
  by (simp add: ind2perm.simps)

lemma ind2perm_returns_perm:
  "ind2perm k (int n) = Inr (ind2perm_loop (rev [1..<Suc n]) k (map int [0..<n]))
   \<and> is_perm (ind2perm_loop (rev [1..<Suc n]) k (map int [0..<n]))
   \<and> length (ind2perm_loop (rev [1..<Suc n]) k (map int [0..<n])) = n"
proof -
  from ind2perm_loop_is_perm[OF identity_is_perm, of n n k]
  have p: "is_perm (ind2perm_loop (rev [1..<Suc n]) k (map int [0..<n]))"
    and l: "length (ind2perm_loop (rev [1..<Suc n]) k (map int [0..<n])) = n" by simp_all
  from standardize_perm[OF p] p l show ?thesis by (simp add: ind2perm_unfold)
qed

lemma perm2ind_then_ind2perm:
  assumes "is_perm p"
  shows "\<exists>K. perm2ind p = Inr K \<and> 0 \<le> K \<and> K < fact (length p)
            \<and> ind2perm K (int (length p)) = Inr p"
proof -
  from perm2ind_loop_code[OF assms le_refl, of 0 1]
  obtain K where K: "perm2ind p = Inr K" "0 \<le> K" "K < fact (length p)"
    "\<forall>xs. length xs = length p \<longrightarrow>
        ind2perm_loop (rev [1..<Suc (length p)]) K xs = map (\<lambda>v. xs ! nat v) p"
    by (auto simp: perm2ind_def)
  have "ind2perm_loop (rev [1..<Suc (length p)]) K (map int [0..<length p])
      = map (\<lambda>v. map int [0..<length p] ! nat v) p" using K(4) by simp
  also have "\<dots> = p"
  proof (rule map_idI)
    fix v assume "v \<in> set p"
    with assms have "0 \<le> v" "nat v < length p" by (auto simp: is_perm_iff_int)
    then show "map int [0..<length p] ! nat v = v" by simp
  qed
  finally have "ind2perm K (int (length p)) = Inr p"
    using ind2perm_returns_perm[of K "length p"] by simp
  with K show ?thesis by blast
qed

lemma perms_of_length:
  "{p. is_perm p \<and> length p = n} = {p. length p = n \<and> distinct p \<and> set p \<subseteq> {0..<int n}}"
proof (rule set_eqI, rule iffI)
  fix p assume "p \<in> {p. is_perm p \<and> length p = n}"
  then show "p \<in> {p. length p = n \<and> distinct p \<and> set p \<subseteq> {0..<int n}}"
    by (auto simp: is_perm_iff_int)
next
  fix p assume a: "p \<in> {p. length p = n \<and> distinct p \<and> set p \<subseteq> {0..<int n}}"
  then have "card (set p) = card {0..<int n}" by (simp add: distinct_card)
  with a have "set p = {0..<int n}" by (intro card_subset_eq) simp_all
  with a show "p \<in> {p. is_perm p \<and> length p = n}" by (simp add: is_perm_iff_int)
qed

lemma card_perms_of_length: "card {p. is_perm p \<and> length p = n} = fact n"
proof -
  have "card {p. length p = n \<and> distinct p \<and> set p \<subseteq> {0..<int n}}
      = \<Prod>{card {0..<int n} - n + 1 .. card {0..<int n}}"
    by (rule card_lists_distinct_length_eq) simp_all
  also have "\<dots> = \<Prod>{1..n}" by simp
  also have "\<dots> = fact n" by (simp add: fact_prod)
  finally show ?thesis by (simp add: perms_of_length)
qed

lemma finite_perms_of_length: "finite {p. is_perm p \<and> length p = n}"
proof -
  have "card {p. is_perm p \<and> length p = n} \<noteq> 0"
    unfolding card_perms_of_length by simp
  then show ?thesis by (rule card_ge_0_finite[OF neq0_conv[THEN iffD1]])
qed

lemma every_index_is_taken:
  assumes "0 \<le> k" and "k < fact n"
  shows "\<exists>p. is_perm p \<and> length p = n \<and> perm2ind p = Inr k"
proof -
  let ?S = "{p. is_perm p \<and> length p = n}"
  let ?code = "\<lambda>p. projr (perm2ind p)"
  have inj: "inj_on ?code ?S"
  proof (rule inj_onI)
    fix p p' assume a: "p \<in> ?S" "p' \<in> ?S" "?code p = ?code p'"
    from a(1) perm2ind_then_ind2perm[of p] obtain K where
      K: "perm2ind p = Inr K" "ind2perm K (int n) = Inr p" by auto
    from a(2) perm2ind_then_ind2perm[of p'] obtain K' where
      K': "perm2ind p' = Inr K'" "ind2perm K' (int n) = Inr p'" by auto
    from a(3) K(1) K'(1) have "K = K'" by simp
    with K(2) K'(2) show "p = p'" by simp
  qed
  have sub: "?code ` ?S \<subseteq> {0..<fact n}"
  proof
    fix x assume "x \<in> ?code ` ?S"
    then obtain p where p: "is_perm p" "length p = n" "x = ?code p" by auto
    from perm2ind_then_ind2perm[OF p(1)] p(2,3) show "x \<in> {0..<fact n}" by auto
  qed
  have "card (?code ` ?S) = card ?S" using inj by (rule card_image)
  also have "\<dots> = card {0..<(fact n :: int)}"
  proof -
    have "(fact n :: int) = int (fact n)" by simp
    then have "card {0..<(fact n :: int)} = fact n" by (simp only: card_atLeastLessThan_int)
    then show ?thesis by (simp add: card_perms_of_length)
  qed
  finally have "?code ` ?S = {0..<fact n}" using sub by (intro card_subset_eq) simp_all
  with assms have "k \<in> ?code ` ?S" by simp
  then obtain p where p: "is_perm p" "length p = n" "k = ?code p" by auto
  from perm2ind_then_ind2perm[OF p(1)] p(3) have "perm2ind p = Inr k" by auto
  with p show ?thesis by blast
qed

text \<open>
  Claim C4.  \<open>ind2perm\<close> and \<open>perm2ind\<close> are inverse bijections between
  \<open>{0, ..., n! - 1}\<close> and the permutations of length \<open>n\<close>: for every \<open>n\<close> and every
  \<open>k\<close> with \<open>0 \<le> k < n!\<close>, \<open>ind2perm(k, n)\<close> returns a permutation of length \<open>n\<close> whose
  \<open>perm2ind()\<close> is \<open>k\<close>; and for every permutation \<open>p\<close> of length \<open>n\<close>, \<open>p.perm2ind()\<close>
  returns some \<open>k\<close> with \<open>0 \<le> k < n!\<close> and \<open>ind2perm(k, n)\<close> returns \<open>p\<close>.
\<close>

theorem index_bijection:
  "(0 \<le> k \<and> k < fact n \<longrightarrow>
      (\<exists>p. ind2perm k (int n) = Inr p \<and> is_perm p \<and> length p = n \<and> perm2ind p = Inr k))
   \<and> (is_perm p \<and> length p = n \<longrightarrow>
      (\<exists>k. perm2ind p = Inr k \<and> 0 \<le> k \<and> k < fact n \<and> ind2perm k (int n) = Inr p))"
proof (intro conjI impI)
  assume k: "0 \<le> k \<and> k < fact n"
  with every_index_is_taken[of k n] obtain q where
    q: "is_perm q" "length q = n" "perm2ind q = Inr k" by blast
  from perm2ind_then_ind2perm[OF q(1)] q(2,3) have "ind2perm k (int n) = Inr q" by auto
  with q show "\<exists>p. ind2perm k (int n) = Inr p \<and> is_perm p \<and> length p = n \<and> perm2ind p = Inr k"
    by blast
next
  assume "is_perm p \<and> length p = n"
  with perm2ind_then_ind2perm[of p]
  show "\<exists>k. perm2ind p = Inr k \<and> 0 \<le> k \<and> k < fact n \<and> ind2perm k (int n) = Inr p"
    by auto
qed

text \<open>Both directions at length \<open>3\<close>: the index \<open>3\<close> and the permutation \<open>3 1 2\<close>.\<close>

theorem index_bijection_witness:
  "(\<exists>p. ind2perm 3 (int 3) = Inr p \<and> is_perm p \<and> length p = 3 \<and> perm2ind p = Inr 3)
   \<and> is_perm [2, 0, 1]
   \<and> (\<exists>k. perm2ind [2, 0, 1] = Inr k \<and> 0 \<le> k \<and> k < fact 3 \<and> ind2perm k (int 3) = Inr [2, 0, 1])"
proof -
  have h: "is_perm [2, 0, 1]" by (simp add: is_perm_def)
  have f: "(3 :: int) < fact 3" by (simp add: fact_numeral)
  from index_bijection[of 3 3 "[2, 0, 1]"] h f show ?thesis by simp
qed



section \<open>What the bound table holds\<close>

text \<open>
  \<open>bound_below L i m b\<close>: among the positions after \<open>i\<close> and before \<open>m\<close>, \<open>b\<close> is \<open>-1\<close>
  when no entry is below \<open>L[i]\<close>, and otherwise the position of the largest entry
  below \<open>L[i]\<close>.  \<open>bound_above\<close> is the same for the smallest entry not below \<open>L[i]\<close>.
\<close>

definition bound_below :: "int list \<Rightarrow> nat \<Rightarrow> nat \<Rightarrow> int \<Rightarrow> bool" where
  "bound_below L i m b =
     (if b = - 1 then (\<forall>j. i < j \<and> j < m \<longrightarrow> \<not> L ! j < L ! i)
      else 0 \<le> b \<and> i < nat b \<and> nat b < m \<and> L ! nat b < L ! i
           \<and> (\<forall>j. i < j \<and> j < m \<and> L ! j < L ! i \<longrightarrow> L ! j \<le> L ! nat b))"

definition bound_above :: "int list \<Rightarrow> nat \<Rightarrow> nat \<Rightarrow> int \<Rightarrow> bool" where
  "bound_above L i m b =
     (if b = - 1 then (\<forall>j. i < j \<and> j < m \<longrightarrow> L ! j < L ! i)
      else 0 \<le> b \<and> i < nat b \<and> nat b < m \<and> \<not> L ! nat b < L ! i
           \<and> (\<forall>j. i < j \<and> j < m \<and> \<not> L ! j < L ! i \<longrightarrow> L ! nat b \<le> L ! j))"

lemma set_up_bounds_inner_inv:
  assumes "\<forall>x \<in> set L. 0 \<le> x" and "i < a" and "b \<le> length L"
    and "i < length lb" and "i < length ub"
    and "bound_below L i a (lb ! i)" and "bound_above L i a (ub ! i)"
    and "max_below = (if lb ! i = - 1 then - 1 else L ! nat (lb ! i))"
    and "min_above = (if ub ! i = - 1 then - 1 else L ! nat (ub ! i))"
  shows "case set_up_bounds_inner L i [a..<b] (min_above, max_below, lb, ub) of
           (mn, mx, lb', ub') \<Rightarrow>
             length lb' = length lb \<and> length ub' = length ub
             \<and> (\<forall>k. k \<noteq> i \<longrightarrow> lb' ! k = lb ! k \<and> ub' ! k = ub ! k)
             \<and> bound_below L i (max a b) (lb' ! i) \<and> bound_above L i (max a b) (ub' ! i)"
  using assms
proof (induction "b - a" arbitrary: a lb ub max_below min_above)
  case 0
  then have "max a b = a" by simp
  with 0 show ?case by simp
next
  case (Suc d)
  then have ab: "a < b" by simp
  then have u: "[a..<b] = a # [Suc a..<b]" by (rule upt_conv_Cons)
  from ab Suc.prems(3) have al: "a < length L" by simp
  then have pos: "0 \<le> L ! a" using Suc.prems(1) by simp
  have mx: "max a b = max (Suc a) b" using ab by simp
  have d: "d = b - Suc a" using Suc.hyps(2) by simp
  have ia: "i < Suc a" using Suc.prems(2) by simp
  note IH = Suc.hyps(1)[OF d Suc.prems(1) ia Suc.prems(3)]
  show ?case
  proof (cases "L ! a < L ! i")
    case below: True
    have ub_ext: "bound_above L i (Suc a) (ub ! i)"
      using Suc.prems(7) below by (auto simp: bound_above_def less_Suc_eq)
    show ?thesis
    proof (cases "L ! a > max_below")
      case True
      let ?lb = "lb[i := int a]"
      have bb: "bound_below L i (Suc a) (?lb ! i)"
      proof -
        have "\<forall>j. i < j \<and> j < Suc a \<and> L ! j < L ! i \<longrightarrow> L ! j \<le> L ! a"
        proof (intro allI impI)
          fix j assume j: "i < j \<and> j < Suc a \<and> L ! j < L ! i"
          show "L ! j \<le> L ! a"
          proof (cases "j = a")
            case True then show ?thesis by simp
          next
            case False
            with j have ja: "i < j \<and> j < a \<and> L ! j < L ! i" by simp
            with Suc.prems(6) have "lb ! i \<noteq> - 1 \<and> L ! j \<le> L ! nat (lb ! i)"
              by (auto simp: bound_below_def split: if_splits)
            with True Suc.prems(8) show ?thesis by simp
          qed
        qed
        with below Suc.prems(2,4) show ?thesis by (simp add: bound_below_def)
      qed
      have e: "set_up_bounds_inner L i [a..<b] (min_above, max_below, lb, ub)
          = set_up_bounds_inner L i [Suc a..<b] (min_above, L ! a, ?lb, ub)"
        unfolding u using below True by simp
      have "case set_up_bounds_inner L i [Suc a..<b] (min_above, L ! a, ?lb, ub) of
           (mn, mx, lb', ub') \<Rightarrow>
             length lb' = length ?lb \<and> length ub' = length ub
             \<and> (\<forall>k. k \<noteq> i \<longrightarrow> lb' ! k = ?lb ! k \<and> ub' ! k = ub ! k)
             \<and> bound_below L i (max (Suc a) b) (lb' ! i) \<and> bound_above L i (max (Suc a) b) (ub' ! i)"
        by (rule IH) (use Suc.prems(4,5,9) bb ub_ext in simp_all)
      then show ?thesis unfolding e mx by (auto split: prod.splits)
    next
      case False
      have bb: "bound_below L i (Suc a) (lb ! i)"
      proof (cases "lb ! i = - 1")
        case True
        with Suc.prems(8) False pos show ?thesis by simp
      next
        case ne: False
        with Suc.prems(6,8) False show ?thesis
          by (auto simp: bound_below_def less_Suc_eq)
      qed
      have e: "set_up_bounds_inner L i [a..<b] (min_above, max_below, lb, ub)
          = set_up_bounds_inner L i [Suc a..<b] (min_above, max_below, lb, ub)"
        unfolding u using below False by simp
      have "case set_up_bounds_inner L i [Suc a..<b] (min_above, max_below, lb, ub) of
           (mn, mx, lb', ub') \<Rightarrow>
             length lb' = length lb \<and> length ub' = length ub
             \<and> (\<forall>k. k \<noteq> i \<longrightarrow> lb' ! k = lb ! k \<and> ub' ! k = ub ! k)
             \<and> bound_below L i (max (Suc a) b) (lb' ! i) \<and> bound_above L i (max (Suc a) b) (ub' ! i)"
        by (rule IH) (use Suc.prems(4,5,8,9) bb ub_ext in simp_all)
      then show ?thesis unfolding e mx .
    qed
  next
    case above: False
    have lb_ext: "bound_below L i (Suc a) (lb ! i)"
      using Suc.prems(6) above by (auto simp: bound_below_def less_Suc_eq)
    show ?thesis
    proof (cases "L ! a < min_above \<or> min_above = - 1")
      case True
      let ?ub = "ub[i := int a]"
      have ba: "bound_above L i (Suc a) (?ub ! i)"
      proof -
        have "\<forall>j. i < j \<and> j < Suc a \<and> \<not> L ! j < L ! i \<longrightarrow> L ! a \<le> L ! j"
        proof (intro allI impI)
          fix j assume j: "i < j \<and> j < Suc a \<and> \<not> L ! j < L ! i"
          show "L ! a \<le> L ! j"
          proof (cases "j = a")
            case True then show ?thesis by simp
          next
            case False
            with j have ja: "i < j \<and> j < a \<and> \<not> L ! j < L ! i" by simp
            with Suc.prems(7) have n1: "ub ! i \<noteq> - 1" and le: "L ! nat (ub ! i) \<le> L ! j"
              by (auto simp: bound_above_def split: if_splits)
            from n1 Suc.prems(7) have "nat (ub ! i) < length L"
              using Suc.prems(3) ab by (auto simp: bound_above_def)
            then have "0 \<le> L ! nat (ub ! i)" using Suc.prems(1) by simp
            with n1 Suc.prems(9) True le show ?thesis by auto
          qed
        qed
        with above Suc.prems(2,5) show ?thesis by (simp add: bound_above_def)
      qed
      have e: "set_up_bounds_inner L i [a..<b] (min_above, max_below, lb, ub)
          = set_up_bounds_inner L i [Suc a..<b] (L ! a, max_below, lb, ?ub)"
        unfolding u using above True by simp
      have "case set_up_bounds_inner L i [Suc a..<b] (L ! a, max_below, lb, ?ub) of
           (mn, mx, lb', ub') \<Rightarrow>
             length lb' = length lb \<and> length ub' = length ?ub
             \<and> (\<forall>k. k \<noteq> i \<longrightarrow> lb' ! k = lb ! k \<and> ub' ! k = ?ub ! k)
             \<and> bound_below L i (max (Suc a) b) (lb' ! i) \<and> bound_above L i (max (Suc a) b) (ub' ! i)"
        by (rule IH) (use Suc.prems(4,5,8) ba lb_ext in simp_all)
      then show ?thesis unfolding e mx by (auto split: prod.splits)
    next
      case False
      then have n1: "ub ! i \<noteq> - 1" using Suc.prems(9) by auto
      have ba: "bound_above L i (Suc a) (ub ! i)"
        using Suc.prems(7,9) False n1 by (auto simp: bound_above_def less_Suc_eq)
      have e: "set_up_bounds_inner L i [a..<b] (min_above, max_below, lb, ub)
          = set_up_bounds_inner L i [Suc a..<b] (min_above, max_below, lb, ub)"
        unfolding u using above False by simp
      have "case set_up_bounds_inner L i [Suc a..<b] (min_above, max_below, lb, ub) of
           (mn, mx, lb', ub') \<Rightarrow>
             length lb' = length lb \<and> length ub' = length ub
             \<and> (\<forall>k. k \<noteq> i \<longrightarrow> lb' ! k = lb ! k \<and> ub' ! k = ub ! k)
             \<and> bound_below L i (max (Suc a) b) (lb' ! i) \<and> bound_above L i (max (Suc a) b) (ub' ! i)"
        by (rule IH) (use Suc.prems(4,5,8,9) ba lb_ext in simp_all)
      then show ?thesis unfolding e mx .
    qed
  qed
qed


lemma set_up_bounds_outer_inv:
  assumes "\<forall>x \<in> set L. 0 \<le> x" and "length lb = length L" and "length ub = length L"
    and "\<forall>k. k < i0 \<longrightarrow> bound_below L k (length L) (lb ! k) \<and> bound_above L k (length L) (ub ! k)"
    and "\<forall>k. i0 \<le> k \<and> k < length L \<longrightarrow> lb ! k = - 1 \<and> ub ! k = - 1"
  shows "case set_up_bounds_outer L [i0..<length L] (lb, ub) of
           (lb', ub') \<Rightarrow> length lb' = length L \<and> length ub' = length L
             \<and> (\<forall>k. k < length L \<longrightarrow>
                  bound_below L k (length L) (lb' ! k) \<and> bound_above L k (length L) (ub' ! k))"
  using assms
proof (induction "length L - i0" arbitrary: i0 lb ub)
  case 0
  then show ?case by simp
next
  case (Suc d)
  then have il: "i0 < length L" by simp
  then have u: "[i0..<length L] = i0 # [Suc i0..<length L]" by (rule upt_conv_Cons)
  from Suc.prems(5) il have i1: "lb ! i0 = - 1" "ub ! i0 = - 1" by simp_all
  obtain mn mx lb1 ub1 where
    r: "set_up_bounds_inner L i0 [Suc i0..<length L] (- 1, - 1, lb, ub) = (mn, mx, lb1, ub1)"
    by (cases "set_up_bounds_inner L i0 [Suc i0..<length L] (- 1, - 1, lb, ub)") auto
  have "case set_up_bounds_inner L i0 [Suc i0..<length L] (- 1, - 1, lb, ub) of
           (mn, mx, lb', ub') \<Rightarrow>
             length lb' = length lb \<and> length ub' = length ub
             \<and> (\<forall>k. k \<noteq> i0 \<longrightarrow> lb' ! k = lb ! k \<and> ub' ! k = ub ! k)
             \<and> bound_below L i0 (max (Suc i0) (length L)) (lb' ! i0)
             \<and> bound_above L i0 (max (Suc i0) (length L)) (ub' ! i0)"
    by (rule set_up_bounds_inner_inv)
       (use Suc.prems(1,2,3) il i1 in \<open>simp_all add: bound_below_def bound_above_def\<close>)
  with r il have inner: "length lb1 = length lb" "length ub1 = length ub"
    "\<forall>k. k \<noteq> i0 \<longrightarrow> lb1 ! k = lb ! k \<and> ub1 ! k = ub ! k"
    "bound_below L i0 (length L) (lb1 ! i0)" "bound_above L i0 (length L) (ub1 ! i0)"
    by (simp_all add: max_def)
  have e: "set_up_bounds_outer L [i0..<length L] (lb, ub)
      = set_up_bounds_outer L [Suc i0..<length L] (lb1, ub1)"
    unfolding u using r by simp
  have d: "d = length L - Suc i0" using Suc.hyps(2) by simp
  have "case set_up_bounds_outer L [Suc i0..<length L] (lb1, ub1) of
           (lb', ub') \<Rightarrow> length lb' = length L \<and> length ub' = length L
             \<and> (\<forall>k. k < length L \<longrightarrow>
                  bound_below L k (length L) (lb' ! k) \<and> bound_above L k (length L) (ub' ! k))"
  proof (rule Suc.hyps(1)[OF d Suc.prems(1)])
    show "length lb1 = length L" "length ub1 = length L"
      using inner(1,2) Suc.prems(2,3) by simp_all
    show "\<forall>k. k < Suc i0 \<longrightarrow>
        bound_below L k (length L) (lb1 ! k) \<and> bound_above L k (length L) (ub1 ! k)"
      using inner(3,4,5) Suc.prems(4) by (auto simp: less_Suc_eq)
    show "\<forall>k. Suc i0 \<le> k \<and> k < length L \<longrightarrow> lb1 ! k = - 1 \<and> ub1 ! k = - 1"
      using inner(3) Suc.prems(5) by auto
  qed
  then show ?case unfolding e .
qed

lemma set_up_bounds_table:
  assumes "\<forall>x \<in> set self. 0 \<le> x" and "set_up_bounds self = (lower_bound, upper_bound)"
  shows "length lower_bound = length self \<and> length upper_bound = length self
     \<and> (\<forall>k. k < length self \<longrightarrow>
          bound_below self k (length self) (lower_bound ! k)
          \<and> bound_above self k (length self) (upper_bound ! k))"
proof -
  have "case set_up_bounds_outer self [0..<length self]
               (replicate (length self) (- 1), replicate (length self) (- 1)) of
           (lb', ub') \<Rightarrow> length lb' = length self \<and> length ub' = length self
             \<and> (\<forall>k. k < length self \<longrightarrow>
                  bound_below self k (length self) (lb' ! k)
                  \<and> bound_above self k (length self) (ub' ! k))"
    by (rule set_up_bounds_outer_inv) (use assms(1) in simp_all)
  with assms(2) show ?thesis by (simp add: set_up_bounds_def Let_def)
qed


section \<open>Embeddings and the pruning test\<close>

text \<open>
  \<open>embedding self P indices k\<close>: the host positions \<open>indices[k], ..., indices[n-1]\<close>
  chosen for the pattern positions \<open>k, ..., n-1\<close> lie in the host \<open>P\<close>, increase,
  and carry host values in the same relative order as the pattern values.
\<close>

definition embedding :: "int list \<Rightarrow> int list \<Rightarrow> int list \<Rightarrow> nat \<Rightarrow> bool" where
  "embedding self P indices k =
     (length indices = length self
      \<and> (\<forall>a. k \<le> a \<and> a < length self \<longrightarrow> 0 \<le> indices ! a \<and> indices ! a < int (length P))
      \<and> (\<forall>a b. k \<le> a \<and> a < b \<and> b < length self \<longrightarrow> indices ! a < indices ! b)
      \<and> (\<forall>a b. k \<le> a \<and> a < length self \<and> k \<le> b \<and> b < length self \<longrightarrow>
            (self ! a < self ! b) = (P ! nat (indices ! a) < P ! nat (indices ! b))))"

text \<open>The chosen positions from \<open>k\<close> on can be completed to an embedding of the whole
  pattern.\<close>

definition extends :: "int list \<Rightarrow> int list \<Rightarrow> int list \<Rightarrow> nat \<Rightarrow> bool" where
  "extends self P indices k =
     (\<exists>ind2. embedding self P ind2 0
        \<and> (\<forall>a. k \<le> a \<and> a < length self \<longrightarrow> ind2 ! a = indices ! a))"

lemma py_get_nat: "k < length xs \<Longrightarrow> py_get xs (int k) = Inr (xs ! k)"
  by (simp add: py_get_def Let_def)

lemma py_get_range: "0 \<le> c \<Longrightarrow> c < int (length xs) \<Longrightarrow> py_get xs c = Inr (xs ! nat c)"
  by (simp add: py_get_def Let_def)

lemma py_set_nat: "k < length xs \<Longrightarrow> py_set xs (int k) v = Inr (xs[k := v])"
  by (simp add: py_set_def Let_def)

lemma py_decr_nat: "k < length xs \<Longrightarrow> py_decr xs (int k) = Inr (xs[k := xs ! k - 1])"
  by (simp add: py_decr_def py_get_nat py_set_nat)

lemma embedding_cong:
  assumes "length ind' = length indices"
    and "\<forall>a. k \<le> a \<and> a < length self \<longrightarrow> ind' ! a = indices ! a"
  shows "embedding self P ind' k = embedding self P indices k"
  using assms unfolding embedding_def
  by (intro conj_cong refl) (auto 0 3)

lemma extends_cong:
  assumes "\<forall>a. k \<le> a \<and> a < length self \<longrightarrow> ind' ! a = indices ! a"
  shows "extends self P ind' k = extends self P indices k"
  using assms unfolding extends_def by auto

lemma embedding_mono: "embedding self P indices k \<Longrightarrow> k \<le> k' \<Longrightarrow> embedding self P indices k'"
  unfolding embedding_def by auto

lemma extends_embedding:
  assumes "extends self P indices k" and "length indices = length self"
  shows "embedding self P indices k"
proof -
  from assms(1) obtain ind2 where e: "embedding self P ind2 0"
    and a: "\<forall>a. k \<le> a \<and> a < length self \<longrightarrow> ind2 ! a = indices ! a"
    by (auto simp: extends_def)
  from e have "embedding self P ind2 k" by (rule embedding_mono) simp
  moreover from e assms(2) have "length ind2 = length indices" by (simp add: embedding_def)
  ultimately show ?thesis using embedding_cong[OF _ a, of P] by simp
qed

lemma embedding_extends: "embedding self P indices 0 \<Longrightarrow> extends self P indices 0"
  unfolding extends_def by blast

text \<open>The facts about the pattern and the host that the search relies on.\<close>

definition search_setting :: "int list \<Rightarrow> int list \<Rightarrow> int list \<Rightarrow> int list \<Rightarrow> bool" where
  "search_setting self P lower_bound upper_bound =
     (distinct self \<and> distinct P
      \<and> length lower_bound = length self \<and> length upper_bound = length self
      \<and> (\<forall>k. k < length self \<longrightarrow>
            bound_below self k (length self) (lower_bound ! k)
            \<and> bound_above self k (length self) (upper_bound ! k)))"

lemma distinct_nth_less:
  assumes "distinct xs" and "a < length xs" and "b < length xs" and "a \<noteq> b"
  shows "xs ! a < xs ! b \<or> xs ! b < (xs ! a :: int)"
  using assms by (metis nth_eq_iff_index_eq linorder_less_linear)

lemma fits_side_value:
  assumes "length indices = length self" and "k < length self"
    and "0 \<le> indices ! k" and "indices ! k < int (length P)"
    and "\<forall>a. k < a \<and> a < length self \<longrightarrow> 0 \<le> indices ! a \<and> indices ! a < int (length P)"
    and "b \<noteq> - 1 \<longrightarrow> 0 \<le> b \<and> k < nat b \<and> nat b < length self"
  shows "(if b = - 1 then Inr True
          else py_bind (py_get indices (int k)) (\<lambda>c.
               py_bind (py_get P c) (\<lambda>v.
               py_bind (py_get indices b) (\<lambda>cl.
               py_bind (py_get P cl) (\<lambda>vl. Inr (f v vl))))))
         = Inr (b = - 1 \<or> f (P ! nat (indices ! k)) (P ! nat (indices ! nat b)))"
proof (cases "b = - 1")
  case True
  then show ?thesis by simp
next
  case False
  with assms(6) have b: "0 \<le> b" "k < nat b" "nat b < length self" by simp_all
  with assms(5) have r: "0 \<le> indices ! nat b" "indices ! nat b < int (length P)" by simp_all
  have "py_get indices b = Inr (indices ! nat b)"
    using b assms(1) by (intro py_get_range) simp_all
  with False assms(1,2,3,4) r show ?thesis
    by (simp add: py_get_nat py_get_range)
qed

lemma involvement_fits_value:
  assumes "search_setting self P lower_bound upper_bound"
    and "length indices = length self" and "k < length self"
    and "0 \<le> indices ! k" and "indices ! k < int (length P)"
    and "\<forall>a. k < a \<and> a < length self \<longrightarrow> 0 \<le> indices ! a \<and> indices ! a < int (length P)"
  shows "involvement_fits upper_bound lower_bound indices P (int k) =
     Inr ((lower_bound ! k = - 1
            \<or> P ! nat (indices ! k) > P ! nat (indices ! nat (lower_bound ! k)))
          \<and> (upper_bound ! k = - 1
            \<or> P ! nat (indices ! k) < P ! nat (indices ! nat (upper_bound ! k))))"
proof -
  from assms(1,3) have
    lb: "lower_bound ! k \<noteq> - 1 \<longrightarrow> 0 \<le> lower_bound ! k \<and> k < nat (lower_bound ! k)
           \<and> nat (lower_bound ! k) < length self"
    and ub: "upper_bound ! k \<noteq> - 1 \<longrightarrow> 0 \<le> upper_bound ! k \<and> k < nat (upper_bound ! k)
           \<and> nat (upper_bound ! k) < length self"
    and len: "length lower_bound = length self" "length upper_bound = length self"
    by (auto simp: search_setting_def bound_below_def bound_above_def split: if_splits)
  note low = fits_side_value[OF assms(2-6) lb, of "\<lambda>v vl. v > vl"]
  note upp = fits_side_value[OF assms(2-6) ub, of "\<lambda>v vu. v < vu"]
  show ?thesis
    unfolding involvement_fits_def
    by (simp only: py_get_nat[of k lower_bound, unfolded len, OF assms(3)]
          py_get_nat[of k upper_bound, unfolded len, OF assms(3)] py_bind_Inr low upp)
       simp
qed


text \<open>
  The test against the two bound positions decides the order of the new host value
  against every host value already chosen.
\<close>

lemma fits_iff_embedding:
  assumes st: "search_setting self P lower_bound upper_bound"
    and e: "embedding self P indices (Suc k)" and kn: "k < length self"
    and c0: "0 \<le> indices ! k" and cp: "indices ! k < int (length P)"
    and cn: "Suc k < length self \<longrightarrow> indices ! k < indices ! Suc k"
  shows "((lower_bound ! k = - 1
            \<or> P ! nat (indices ! k) > P ! nat (indices ! nat (lower_bound ! k)))
          \<and> (upper_bound ! k = - 1
            \<or> P ! nat (indices ! k) < P ! nat (indices ! nat (upper_bound ! k))))
         = embedding self P indices k"
    (is "?fits = _")
proof -
  let ?n = "length self"
  let ?h = "\<lambda>a. P ! nat (indices ! a)"
  from st kn have ds: "distinct self" and dp: "distinct P"
    and bb: "bound_below self k ?n (lower_bound ! k)"
    and ba: "bound_above self k ?n (upper_bound ! k)"
    by (simp_all add: search_setting_def)
  from e have len: "length indices = ?n"
    and rng: "\<forall>a. Suc k \<le> a \<and> a < ?n \<longrightarrow> 0 \<le> indices ! a \<and> indices ! a < int (length P)"
    and inc: "\<forall>a b. Suc k \<le> a \<and> a < b \<and> b < ?n \<longrightarrow> indices ! a < indices ! b"
    and iso: "\<forall>a b. Suc k \<le> a \<and> a < ?n \<and> Suc k \<le> b \<and> b < ?n \<longrightarrow>
            (self ! a < self ! b) = (?h a < ?h b)"
    by (simp_all add: embedding_def)
  have above_k: "indices ! k < indices ! b" if "k < b" "b < ?n" for b
  proof -
    from that have s: "Suc k < ?n" by simp
    with cn have "indices ! k < indices ! Suc k" by simp
    moreover have "indices ! Suc k \<le> indices ! b"
    proof (cases "b = Suc k")
      case True then show ?thesis by simp
    next
      case False
      with that inc show ?thesis by (simp add: less_imp_le)
    qed
    ultimately show ?thesis by simp
  qed
  have hne: "?h k \<noteq> ?h b" if "k < b" "b < ?n" for b
  proof -
    from that rng have "0 \<le> indices ! b" "indices ! b < int (length P)" by simp_all
    moreover from above_k[OF that] have "nat (indices ! k) \<noteq> nat (indices ! b)"
      using c0 by simp
    ultimately show ?thesis using dp c0 cp by (simp add: nth_eq_iff_index_eq)
  qed
  have sne: "self ! k \<noteq> self ! b" if "k < b" "b < ?n" for b
    using that ds kn by (simp add: nth_eq_iff_index_eq)
  show ?thesis
  proof
    assume f: ?fits
    have lowpart: "?h b < ?h k" if "k < b" "b < ?n" "self ! b < self ! k" for b
    proof -
      from bb that have n1: "lower_bound ! k \<noteq> - 1"
        by (auto simp: bound_below_def)
      let ?l = "nat (lower_bound ! k)"
      from bb n1 have l: "k < ?l" "?l < ?n" "self ! ?l < self ! k"
        and mx: "\<forall>j. k < j \<and> j < ?n \<and> self ! j < self ! k \<longrightarrow> self ! j \<le> self ! ?l"
        by (simp_all add: bound_below_def)
      from f n1 have fl: "?h ?l < ?h k" by simp
      show ?thesis
      proof (cases "b = ?l")
        case True with fl show ?thesis by simp
      next
        case False
        from mx that have "self ! b \<le> self ! ?l" by simp
        moreover from False ds that(2) l(2) have "self ! b \<noteq> self ! ?l"
          by (simp add: nth_eq_iff_index_eq)
        ultimately have "self ! b < self ! ?l" by simp
        with iso that l have "?h b < ?h ?l" by simp
        with fl show ?thesis by simp
      qed
    qed
    have upppart: "?h k < ?h b" if "k < b" "b < ?n" "\<not> self ! b < self ! k" for b
    proof -
      from ba that have n1: "upper_bound ! k \<noteq> - 1"
        by (auto simp: bound_above_def)
      let ?u = "nat (upper_bound ! k)"
      from ba n1 have u: "k < ?u" "?u < ?n" "\<not> self ! ?u < self ! k"
        and mn: "\<forall>j. k < j \<and> j < ?n \<and> \<not> self ! j < self ! k \<longrightarrow> self ! ?u \<le> self ! j"
        by (simp_all add: bound_above_def)
      from f n1 have fu: "?h k < ?h ?u" by simp
      show ?thesis
      proof (cases "b = ?u")
        case True with fu show ?thesis by simp
      next
        case False
        from mn that have "self ! ?u \<le> self ! b" by simp
        moreover from False ds that(2) u(2) have "self ! ?u \<noteq> self ! b"
          by (simp add: nth_eq_iff_index_eq)
        ultimately have "self ! ?u < self ! b" by simp
        with iso that u have "?h ?u < ?h b" by simp
        with fu show ?thesis by simp
      qed
    qed
    have pair: "(self ! a < self ! b) = (?h a < ?h b)"
      if "k \<le> a" "a < ?n" "k \<le> b" "b < ?n" for a b
    proof (cases "a = k")
      case ak: True
      show ?thesis
      proof (cases "b = k")
        case True with ak show ?thesis by simp
      next
        case False
        with that have kb: "k < b" by simp
        show ?thesis
        proof (cases "self ! b < self ! k")
          case True
          with lowpart[OF kb that(4)] ak show ?thesis by simp
        next
          case False
          with upppart[OF kb that(4)] sne[OF kb that(4)] ak show ?thesis by simp
        qed
      qed
    next
      case ank: False
      with that have ka: "k < a" by simp
      show ?thesis
      proof (cases "b = k")
        case True
        show ?thesis
        proof (cases "self ! a < self ! k")
          case t: True
          with lowpart[OF ka that(2)] True show ?thesis by simp
        next
          case False
          with upppart[OF ka that(2)] True show ?thesis by simp
        qed
      next
        case False
        with that ka iso show ?thesis by simp
      qed
    qed
    show "embedding self P indices k"
      unfolding embedding_def
    proof (intro conjI allI impI)
      show "length indices = ?n" by (rule len)
    next
      fix a assume "k \<le> a \<and> a < ?n"
      then show "0 \<le> indices ! a" "indices ! a < int (length P)"
        using rng c0 cp by (cases "a = k"; simp)+
    next
      fix a b assume ab: "k \<le> a \<and> a < b \<and> b < ?n"
      show "indices ! a < indices ! b"
      proof (cases "a = k")
        case True with ab above_k show ?thesis by simp
      next
        case False with ab inc show ?thesis by simp
      qed
    next
      fix a b assume "k \<le> a \<and> a < ?n \<and> k \<le> b \<and> b < ?n"
      then show "(self ! a < self ! b) = (?h a < ?h b)" using pair by simp
    qed
  next
    assume ek: "embedding self P indices k"
    then have isok: "\<forall>a b. k \<le> a \<and> a < ?n \<and> k \<le> b \<and> b < ?n \<longrightarrow>
            (self ! a < self ! b) = (?h a < ?h b)"
      by (simp add: embedding_def)
    have "lower_bound ! k = - 1 \<or> ?h (nat (lower_bound ! k)) < ?h k"
    proof (cases "lower_bound ! k = - 1")
      case True then show ?thesis by simp
    next
      case False
      with bb have "k < nat (lower_bound ! k)" "nat (lower_bound ! k) < ?n"
        "self ! nat (lower_bound ! k) < self ! k" by (simp_all add: bound_below_def)
      with isok kn show ?thesis by simp
    qed
    moreover have "upper_bound ! k = - 1 \<or> ?h k < ?h (nat (upper_bound ! k))"
    proof (cases "upper_bound ! k = - 1")
      case True then show ?thesis by simp
    next
      case False
      with ba have u: "k < nat (upper_bound ! k)" "nat (upper_bound ! k) < ?n"
        "\<not> self ! nat (upper_bound ! k) < self ! k" by (simp_all add: bound_above_def)
      with sne[OF u(1,2)] have "self ! k < self ! nat (upper_bound ! k)" by simp
      with isok kn u show ?thesis by simp
    qed
    ultimately show ?fits by simp
  qed
qed


section \<open>The backtracking search finds an embedding when there is one\<close>

lemma update_same [simp]: "k < length xs \<Longrightarrow> xs ! k = c \<Longrightarrow> xs[k := c] = xs"
  by (metis list_update_id)

lemma involvement_check_while_correct:
  assumes st: "search_setting self P lower_bound upper_bound"
    and H: "\<And>ind. embedding self P ind k \<Longrightarrow>
              \<exists>ind'. involvement_check upper_bound lower_bound ind P (int k - 1)
                       = Inr (extends self P ind k, ind')"
    and sk: "Suc k < length self"
  shows "embedding self P indices (Suc k) \<Longrightarrow> indices ! k = c \<Longrightarrow> c < indices ! Suc k \<Longrightarrow>
         - 1 \<le> c \<Longrightarrow>
         \<exists>ind'. involvement_check_while upper_bound lower_bound indices P (int k)
           = Inr (\<exists>c'. 0 \<le> c' \<and> c' \<le> c \<and> extends self P (indices[k := c']) k, ind')"
proof (induction "nat (c + 1)" arbitrary: indices c)
  case 0
  then have "c = - 1" by simp
  moreover from "0.prems"(1) sk have "k < length indices" by (simp add: embedding_def)
  ultimately show ?case using "0.prems"(2)
    by (subst involvement_check_while.simps) (simp add: py_get_nat)
next
  case (Suc d)
  let ?n = "length self"
  from Suc.hyps(2) have c0: "0 \<le> c" by simp
  from Suc.prems(1) have len: "length indices = ?n" by (simp add: embedding_def)
  with sk have kl: "k < length indices" by simp
  from Suc.prems(1) sk have "indices ! Suc k < int (length P)" by (simp add: embedding_def)
  with Suc.prems(3) have cp: "c < int (length P)" by simp
  have rng: "\<forall>a. k < a \<and> a < ?n \<longrightarrow> 0 \<le> indices ! a \<and> indices ! a < int (length P)"
    using Suc.prems(1) by (simp add: embedding_def Suc_le_eq)
  have kn: "k < ?n" using sk by simp
  have fv: "involvement_fits upper_bound lower_bound indices P (int k)
      = Inr (embedding self P indices k)"
    using involvement_fits_value[OF st len kn _ _ rng]
      fits_iff_embedding[OF st Suc.prems(1) kn] c0 cp Suc.prems(2,3)
    by simp
  have get: "py_get indices (int k) = Inr c" using kl Suc.prems(2) by (simp add: py_get_nat)
  text \<open>What the loop does after a failed candidate.\<close>
  have retry: "\<exists>ind'. involvement_check_while upper_bound lower_bound (ind1[k := c - 1]) P (int k)
           = Inr (\<exists>c'. 0 \<le> c' \<and> c' \<le> c \<and> extends self P (indices[k := c']) k, ind')"
    if l1: "length ind1 = length indices"
      and a1: "\<forall>a. k \<le> a \<and> a < ?n \<longrightarrow> ind1 ! a = indices ! a"
      and no: "\<not> extends self P indices k"
    for ind1
  proof -
    let ?ind2 = "ind1[k := c - 1]"
    have l2: "length ?ind2 = length indices" using l1 by simp
    have a2: "\<forall>a. Suc k \<le> a \<and> a < ?n \<longrightarrow> ?ind2 ! a = indices ! a"
      using a1 by simp
    have e2: "embedding self P ?ind2 (Suc k)"
      using embedding_cong[OF l2 a2, of P] Suc.prems(1) by simp
    have k2: "?ind2 ! k = c - 1" using l1 kl by simp
    have s2: "c - 1 < ?ind2 ! Suc k" using a2 sk Suc.prems(3) by simp
    have d: "d = nat (c - 1 + 1)" using Suc.hyps(2) by simp
    from Suc.hyps(1)[OF d e2 k2 s2] c0
    obtain ind' where w: "involvement_check_while upper_bound lower_bound ?ind2 P (int k)
        = Inr (\<exists>c'. 0 \<le> c' \<and> c' \<le> c - 1 \<and> extends self P (?ind2[k := c']) k, ind')"
      by auto
    have "(\<exists>c'. 0 \<le> c' \<and> c' \<le> c - 1 \<and> extends self P (?ind2[k := c']) k)
        = (\<exists>c'. 0 \<le> c' \<and> c' \<le> c \<and> extends self P (indices[k := c']) k)"
    proof -
      have x: "extends self P (?ind2[k := c']) k = extends self P (indices[k := c']) k" for c'
      proof (rule extends_cong, intro allI impI)
        fix a assume "k \<le> a \<and> a < ?n"
        then show "?ind2[k := c'] ! a = indices[k := c'] ! a"
          using a1 l1 kl by (cases "a = k") simp_all
      qed
      have y: "\<not> extends self P (indices[k := c]) k"
        using no kl Suc.prems(2) by simp
      show ?thesis unfolding x
      proof
        assume "\<exists>c'. 0 \<le> c' \<and> c' \<le> c - 1 \<and> extends self P (indices[k := c']) k"
        then obtain c' where "0 \<le> c'" "c' \<le> c - 1" "extends self P (indices[k := c']) k"
          by blast
        then show "\<exists>c'. 0 \<le> c' \<and> c' \<le> c \<and> extends self P (indices[k := c']) k"
          by (intro exI[of _ c']) simp
      next
        assume "\<exists>c'. 0 \<le> c' \<and> c' \<le> c \<and> extends self P (indices[k := c']) k"
        then obtain c' where c': "0 \<le> c'" "c' \<le> c" "extends self P (indices[k := c']) k"
          by blast
        with y have "c' \<noteq> c" by auto
        with c' show "\<exists>c'. 0 \<le> c' \<and> c' \<le> c - 1 \<and> extends self P (indices[k := c']) k"
          by (intro exI[of _ c']) simp
      qed
    qed
    with w show ?thesis by auto
  qed
  show ?case
  proof (cases "embedding self P indices k")
    case False
    then have no: "\<not> extends self P indices k" using extends_embedding[OF _ len] by blast
    have dec: "py_decr indices (int k) = Inr (indices[k := c - 1])"
      using kl Suc.prems(2) by (simp add: py_decr_nat)
    from retry[OF refl _ no] obtain ind' where
      "involvement_check_while upper_bound lower_bound (indices[k := c - 1]) P (int k)
           = Inr (\<exists>c'. 0 \<le> c' \<and> c' \<le> c \<and> extends self P (indices[k := c']) k, ind')"
      by auto
    then show ?thesis
      by (subst involvement_check_while.simps) (simp add: get c0 fv False dec)
  next
    case True
    from H[OF True] obtain ind1 where
      ch: "involvement_check upper_bound lower_bound indices P (int k - 1)
             = Inr (extends self P indices k, ind1)" by blast
    show ?thesis
    proof (cases "extends self P indices k")
      case ex: True
      have "\<exists>c'. 0 \<le> c' \<and> c' \<le> c \<and> extends self P (indices[k := c']) k"
        using ex c0 kl Suc.prems(2) by (intro exI[of _ c]) simp
      then show ?thesis
        by (subst involvement_check_while.simps) (simp add: get c0 fv True ch ex)
    next
      case no: False
      from involvement_check_keeps[OF ch]
      have l1: "length ind1 = length indices"
        and a1: "\<forall>a. k \<le> a \<and> a < ?n \<longrightarrow> ind1 ! a = indices ! a"
        by auto
      have "ind1 ! k = c" using a1 kn Suc.prems(2) by simp
      then have dec: "py_decr ind1 (int k) = Inr (ind1[k := c - 1])"
        using kl l1 by (simp add: py_decr_nat)
      from retry[OF l1 a1 no] obtain ind' where
        "involvement_check_while upper_bound lower_bound (ind1[k := c - 1]) P (int k)
           = Inr (\<exists>c'. 0 \<le> c' \<and> c' \<le> c \<and> extends self P (indices[k := c']) k, ind')"
        by auto
      then show ?thesis
        by (subst involvement_check_while.simps) (simp add: get c0 fv True ch no dec)
    qed
  qed
qed


lemma extends_step:
  assumes "Suc k < length self" and "length indices = length self"
  shows "extends self P indices (Suc k)
     = (\<exists>c'. 0 \<le> c' \<and> c' \<le> indices ! Suc k - 1 \<and> extends self P (indices[k := c']) k)"
proof
  assume "extends self P indices (Suc k)"
  then obtain ind2 where e: "embedding self P ind2 0"
    and a: "\<forall>a. Suc k \<le> a \<and> a < length self \<longrightarrow> ind2 ! a = indices ! a"
    by (auto simp: extends_def)
  from e assms(1) have "0 \<le> ind2 ! k" "ind2 ! k < ind2 ! Suc k"
    by (simp_all add: embedding_def)
  moreover from a assms(1) have "ind2 ! Suc k = indices ! Suc k" by simp
  moreover have "extends self P (indices[k := ind2 ! k]) k"
    unfolding extends_def
  proof (intro exI[of _ ind2] conjI allI impI)
    show "embedding self P ind2 0" by (rule e)
  next
    fix b assume "k \<le> b \<and> b < length self"
    then show "ind2 ! b = indices[k := ind2 ! k] ! b"
      using a assms by (cases "b = k") simp_all
  qed
  ultimately show "\<exists>c'. 0 \<le> c' \<and> c' \<le> indices ! Suc k - 1 \<and> extends self P (indices[k := c']) k"
    by (intro exI[of _ "ind2 ! k"]) simp
next
  assume "\<exists>c'. 0 \<le> c' \<and> c' \<le> indices ! Suc k - 1 \<and> extends self P (indices[k := c']) k"
  then obtain c' ind2 where e: "embedding self P ind2 0"
    and a: "\<forall>a. k \<le> a \<and> a < length self \<longrightarrow> ind2 ! a = indices[k := c'] ! a"
    by (auto simp: extends_def)
  from a have "\<forall>a. Suc k \<le> a \<and> a < length self \<longrightarrow> ind2 ! a = indices ! a" by simp
  with e show "extends self P indices (Suc k)" unfolding extends_def by blast
qed

lemma involvement_check_correct:
  assumes st: "search_setting self P lower_bound upper_bound" and kn: "k < length self"
  shows "embedding self P indices k \<Longrightarrow>
     \<exists>ind'. involvement_check upper_bound lower_bound indices P (int k - 1)
              = Inr (extends self P indices k, ind')"
  using kn
proof (induction k arbitrary: indices)
  case 0
  then show ?case
    by (subst involvement_check.simps) (simp add: embedding_extends)
next
  case (Suc k)
  let ?v = "indices ! Suc k"
  let ?ind1 = "indices[k := ?v - 1]"
  from Suc.prems have len: "length indices = length self"
    and v0: "0 \<le> ?v" by (simp_all add: embedding_def)
  have H: "\<And>ind. embedding self P ind k \<Longrightarrow>
              \<exists>ind'. involvement_check upper_bound lower_bound ind P (int k - 1)
                       = Inr (extends self P ind k, ind')"
    using Suc.IH Suc.prems(2) by simp
  have e1: "embedding self P ?ind1 (Suc k)"
    using embedding_cong[of ?ind1 indices "Suc k" self P] Suc.prems(1) by simp
  have k1: "?ind1 ! k = ?v - 1" using len Suc.prems(2) by simp
  have s1: "?v - 1 < ?ind1 ! Suc k" by simp
  from involvement_check_while_correct[OF st H Suc.prems(2) e1 k1 s1] v0
  obtain ind' where w: "involvement_check_while upper_bound lower_bound ?ind1 P (int k)
      = Inr (\<exists>c'. 0 \<le> c' \<and> c' \<le> ?v - 1 \<and> extends self P (?ind1[k := c']) k, ind')"
    by auto
  have g: "py_get indices (int k + 1) = Inr ?v"
    using py_get_nat[of "Suc k" indices] len Suc.prems(2) by (simp add: add.commute)
  have s: "py_set indices (int k) (?v - 1) = Inr ?ind1"
    using len Suc.prems(2) by (simp add: py_set_nat)
  have "involvement_check upper_bound lower_bound indices P (int (Suc k) - 1)
      = involvement_check_while upper_bound lower_bound ?ind1 P (int k)"
    by (subst involvement_check.simps) (simp add: g s)
  with w extends_step[OF Suc.prems(2) len, of P] show ?case by simp
qed

lemma involved_in_while_correct:
  assumes st: "search_setting self P lower_bound upper_bound"
    and k: "Suc k = length self"
  shows "length indices = length self \<Longrightarrow> indices ! k = c \<Longrightarrow>
         c < int (length P) \<Longrightarrow> - 1 \<le> c \<Longrightarrow>
         involved_in_while upper_bound lower_bound indices P (int (length self))
           = Inr (\<exists>c'. 0 \<le> c' \<and> c' \<le> c \<and> extends self P (indices[k := c']) k)"
proof (induction "nat (c + 1)" arbitrary: indices c)
  case 0
  let ?n = "length self"
  have i1: "int ?n - 1 = int k" using k[symmetric] by simp
  from 0 have "c = - 1" by simp
  moreover have "py_get indices (int k) = Inr (indices ! k)"
    by (rule py_get_nat) (use "0.prems"(1) k in simp)
  ultimately show ?case using "0.prems"(2)
    by (subst involved_in_while.simps) (simp add: i1)
next
  case (Suc d)
  let ?n = "length self"
  from Suc.hyps(2) have c0: "0 \<le> c" by simp
  have kn: "k < ?n" using k by simp
  have i1: "int ?n - 1 = int k" "int ?n - 2 = int k - 1" using k[symmetric] by simp_all
  have "py_get indices (int k) = Inr (indices ! k)"
    by (rule py_get_nat) (use Suc.prems(1) kn in simp)
  then have get: "py_get indices (int k) = Inr c"
    using Suc.prems(2) by (simp only:)
  have only: "a = k" if "k \<le> a" "a < ?n" for a using that k by simp
  have e: "embedding self P indices k"
    unfolding embedding_def
  proof (intro conjI allI impI)
    show "length indices = ?n" by (rule Suc.prems(1))
  next
    fix a assume "k \<le> a \<and> a < ?n"
    then have "a = k" using only by simp
    then show "0 \<le> indices ! a" "indices ! a < int (length P)"
      using Suc.prems(2,3) c0 by simp_all
  next
    fix a b assume "k \<le> a \<and> a < b \<and> b < ?n"
    then have False using k by simp
    then show "indices ! a < indices ! b" ..
  next
    fix a b assume "k \<le> a \<and> a < ?n \<and> k \<le> b \<and> b < ?n"
    then have "a = k" "b = k" using only by simp_all
    then show "(self ! a < self ! b) = (P ! nat (indices ! a) < P ! nat (indices ! b))"
      by simp
  qed
  from involvement_check_correct[OF st kn e] obtain ind1 where
    ch: "involvement_check upper_bound lower_bound indices P (int k - 1)
           = Inr (extends self P indices k, ind1)" by blast
  show ?case
  proof (cases "extends self P indices k")
    case True
    then have "\<exists>c'. 0 \<le> c' \<and> c' \<le> c \<and> extends self P (indices[k := c']) k"
      using c0 Suc.prems(1,2) kn by (intro exI[of _ c]) simp
    with True show ?thesis
      by (subst involved_in_while.simps) (simp add: i1 get c0 ch)
  next
    case no: False
    from involvement_check_keeps[OF ch]
    have l1: "length ind1 = length indices"
      and a1: "\<forall>a. k \<le> a \<and> a < ?n \<longrightarrow> ind1 ! a = indices ! a"
      by auto
    let ?ind2 = "ind1[k := c - 1]"
    have "ind1 ! k = c" using a1 kn Suc.prems(2) by simp
    then have dec: "py_decr ind1 (int k) = Inr ?ind2"
      using kn l1 Suc.prems(1) by (simp add: py_decr_nat)
    have d: "d = nat (c - 1 + 1)" using Suc.hyps(2) by simp
    have l2: "length ?ind2 = ?n" using l1 Suc.prems(1) by simp
    have k2: "?ind2 ! k = c - 1" using l2 kn by simp
    from Suc.hyps(1)[OF d l2 k2] Suc.prems(3) c0
    have w: "involved_in_while upper_bound lower_bound ?ind2 P (int ?n)
        = Inr (\<exists>c'. 0 \<le> c' \<and> c' \<le> c - 1 \<and> extends self P (?ind2[k := c']) k)"
      by simp
    have x: "extends self P (?ind2[k := c']) k = extends self P (indices[k := c']) k" for c'
    proof (rule extends_cong, intro allI impI)
      fix a assume "k \<le> a \<and> a < ?n"
      then have "a = k" using only by simp
      then show "?ind2[k := c'] ! a = indices[k := c'] ! a"
        using l1 kn Suc.prems(1) by simp
    qed
    have y: "\<not> extends self P (indices[k := c]) k"
      using no kn Suc.prems(1,2) by simp
    have "(\<exists>c'. 0 \<le> c' \<and> c' \<le> c - 1 \<and> extends self P (?ind2[k := c']) k)
        = (\<exists>c'. 0 \<le> c' \<and> c' \<le> c \<and> extends self P (indices[k := c']) k)"
      unfolding x
    proof
      assume "\<exists>c'. 0 \<le> c' \<and> c' \<le> c - 1 \<and> extends self P (indices[k := c']) k"
      then obtain c' where "0 \<le> c'" "c' \<le> c - 1" "extends self P (indices[k := c']) k"
        by blast
      then show "\<exists>c'. 0 \<le> c' \<and> c' \<le> c \<and> extends self P (indices[k := c']) k"
        by (intro exI[of _ c']) simp
    next
      assume "\<exists>c'. 0 \<le> c' \<and> c' \<le> c \<and> extends self P (indices[k := c']) k"
      then obtain c' where c': "0 \<le> c'" "c' \<le> c" "extends self P (indices[k := c']) k"
        by blast
      with y have "c' \<noteq> c" by auto
      with c' show "\<exists>c'. 0 \<le> c' \<and> c' \<le> c - 1 \<and> extends self P (indices[k := c']) k"
        by (intro exI[of _ c']) simp
    qed
    with w no show ?thesis
      by (subst involved_in_while.simps) (simp add: i1 get c0 ch dec)
  qed
qed

text \<open>An order-isomorphic embedding of the pattern \<open>self\<close> into the host \<open>P\<close> exists.\<close>

definition occurs_in :: "int list \<Rightarrow> int list \<Rightarrow> bool" where
  "occurs_in self P = (\<exists>indices. embedding self P indices 0)"

lemma involved_in_correct:
  assumes "is_perm self" and "distinct P"
  shows "involved_in self P 0 = Inr (occurs_in self P)"
proof -
  let ?n = "length self" and ?p = "length P"
  obtain lb ub where t: "set_up_bounds self = (lb, ub)" by (cases "set_up_bounds self")
  from assms(1) have nn: "\<forall>x \<in> set self. 0 \<le> x" and ds: "distinct self"
    by (simp_all add: is_perm_iff_int)
  from set_up_bounds_table[OF nn t] ds assms(2) have st: "search_setting self P lb ub"
    by (simp add: search_setting_def)
  show ?thesis
  proof (cases "?n \<le> 1 \<and> ?n \<le> ?p")
    case True
    have "occurs_in self P"
      unfolding occurs_in_def
    proof (cases self)
      case Nil
      then show "\<exists>indices. embedding self P indices 0"
        by (intro exI[of _ "[]"]) (simp add: embedding_def)
    next
      case (Cons x xs)
      with True have "xs = []" "P \<noteq> []" by auto
      with Cons show "\<exists>indices. embedding self P indices 0"
        by (intro exI[of _ "[0]"]) (simp add: embedding_def)
    qed
    with True t show ?thesis by (simp add: involved_in_def)
  next
    case False
    then obtain k where k: "Suc k = ?n" by (cases ?n) auto
    then have i1: "int ?n - 1 = int k" by (simp add: k[symmetric])
    let ?ind = "(replicate ?n (0::int))[k := int ?p - 1]"
    have s: "py_set (replicate ?n 0) (int k) (int ?p - 1) = Inr ?ind"
      by (rule py_set_nat) (use k in simp)
    have w: "involved_in_while ub lb ?ind P (int ?n)
        = Inr (\<exists>c'. 0 \<le> c' \<and> c' \<le> int ?p - 1 \<and> extends self P (?ind[k := c']) k)"
      by (rule involved_in_while_correct[OF st k]) (use k in simp_all)
    have "(\<exists>c'. 0 \<le> c' \<and> c' \<le> int ?p - 1 \<and> extends self P (?ind[k := c']) k)
        = occurs_in self P"
    proof
      assume "\<exists>c'. 0 \<le> c' \<and> c' \<le> int ?p - 1 \<and> extends self P (?ind[k := c']) k"
      then show "occurs_in self P" unfolding occurs_in_def extends_def by blast
    next
      assume "occurs_in self P"
      then obtain ind2 where e: "embedding self P ind2 0" by (auto simp: occurs_in_def)
      with k have r: "0 \<le> ind2 ! k" "ind2 ! k < int ?p"
        by (simp_all add: embedding_def)
      have "extends self P (?ind[k := ind2 ! k]) k"
        unfolding extends_def
      proof (intro exI[of _ ind2] conjI allI impI)
        show "embedding self P ind2 0" by (rule e)
      next
        fix a assume "k \<le> a \<and> a < ?n"
        then have "a = k" using k by simp
        then show "ind2 ! a = ?ind[k := ind2 ! k] ! a" using k by simp
      qed
      with r show "\<exists>c'. 0 \<le> c' \<and> c' \<le> int ?p - 1 \<and> extends self P (?ind[k := c']) k"
        by (intro exI[of _ "ind2 ! k"]) simp
    qed
    then have w': "involved_in_while ub lb ?ind P (int ?n) = Inr (occurs_in self P)"
      using w by (simp only:)
    have nf: "\<not> (int ?n \<le> 1 \<and> int ?n \<le> int ?p)" using False by simp
    show ?thesis
      unfolding involved_in_def t using False by (auto simp: Let_def i1 s w')
  qed
qed


section \<open>The brute-force count\<close>

lemma combinations_subseq:
  "s \<in> set (combinations xs k) \<longleftrightarrow> subseq s xs \<and> length s = k"
proof (induction xs k arbitrary: s rule: combinations.induct)
  case (1 xs)
  then show ?case by auto
next
  case (2 k)
  then show ?case by auto
next
  case (3 x xs k)
  show ?case
  proof (cases s)
    case Nil
    then show ?thesis using 3 by auto
  next
    case (Cons a s')
    show ?thesis
    proof (cases "a = x")
      case True
      have "subseq (x # s') xs \<Longrightarrow> subseq s' xs" by (rule subseq_Cons')
      with Cons True 3 show ?thesis by auto
    next
      case False
      with Cons 3 show ?thesis by auto
    qed
  qed
qed

lemma subseq_keeps_distinct:
  assumes "subseq s xs" and "distinct xs"
  shows "distinct s"
proof -
  from assms(1) obtain N where "s = nths xs N" by (auto simp: subseq_conv_nths)
  with assms(2) show ?thesis by simp
qed

lemma increasing_positions_subseq:
  assumes "sorted_wrt (<) idx" and "\<forall>i \<in> set idx. i < length xs"
  shows "subseq (map ((!) xs) idx) xs"
  using assms
proof (induction xs arbitrary: idx)
  case Nil
  then have "idx = []" by (cases idx) auto
  then show ?case by simp
next
  case (Cons x xs)
  show ?case
  proof (cases idx)
    case Nil
    then show ?thesis by simp
  next
    case (Cons i rest)
    have shift: "map ((!) (x # xs)) js = map ((!) xs) (map (\<lambda>j. j - 1) js)
        \<and> sorted_wrt (<) (map (\<lambda>j. j - 1) js)
        \<and> (\<forall>j \<in> set (map (\<lambda>j. j - 1) js). j < length xs)"
      if "sorted_wrt (<) js" "\<forall>j \<in> set js. 0 < j \<and> j < length (x # xs)" for js
    proof (intro conjI)
      show "map ((!) (x # xs)) js = map ((!) xs) (map (\<lambda>j. j - 1) js)"
        using that(2) by (auto simp: nth_Cons')
      show "sorted_wrt (<) (map (\<lambda>j. j - 1) js)"
        using that by (auto simp: sorted_wrt_map intro!: sorted_wrt_mono_rel[of js "(<)"])
      show "\<forall>j \<in> set (map (\<lambda>j. j - 1) js). j < length xs"
        using that(2) by auto
    qed
    show ?thesis
    proof (cases "i = 0")
      case True
      from Cons.prems Cons True have r: "sorted_wrt (<) rest"
        "\<forall>j \<in> set rest. 0 < j \<and> j < length (x # xs)" by auto
      note sh = shift[OF r]
      have "subseq (map ((!) xs) (map (\<lambda>j. j - 1) rest)) xs"
        by (rule Cons.IH) (use sh in blast)+
      then have "subseq (map ((!) (x # xs)) rest) xs" using sh by (simp only:)
      with Cons True show ?thesis by simp
    next
      case False
      from Cons.prems Cons False have r: "sorted_wrt (<) idx"
        "\<forall>j \<in> set idx. 0 < j \<and> j < length (x # xs)" by auto
      note sh = shift[OF r]
      have "subseq (map ((!) xs) (map (\<lambda>j. j - 1) idx)) xs"
        by (rule Cons.IH) (use sh in blast)+
      then have "subseq (map ((!) (x # xs)) idx) xs" using sh by (simp only:)
      then show ?thesis by (rule list_emb_Cons)
    qed
  qed
qed

lemma subseq_increasing_positions:
  assumes "subseq s xs"
  shows "\<exists>idx. sorted_wrt (<) idx \<and> (\<forall>i \<in> set idx. i < length xs) \<and> s = map ((!) xs) idx"
  using assms
proof (induction rule: list_emb.induct)
  case (list_emb_Nil ys)
  show ?case by (intro exI[of _ "[]"]) simp
next
  case (list_emb_Cons xs ys y)
  then obtain idx where i: "sorted_wrt (<) idx" "\<forall>i \<in> set idx. i < length ys"
    "xs = map ((!) ys) idx" by blast
  show ?case
    by (intro exI[of _ "map Suc idx"]) (use i in \<open>auto simp: sorted_wrt_map\<close>)
next
  case (list_emb_Cons2 x y xs ys)
  then obtain idx where i: "sorted_wrt (<) idx" "\<forall>i \<in> set idx. i < length ys"
    "xs = map ((!) ys) idx" by blast
  show ?case
    by (intro exI[of _ "0 # map Suc idx"]) (use i list_emb_Cons2(1) in \<open>auto simp: sorted_wrt_map\<close>)
qed

text \<open>Two sequences of the same length with the same relative order.\<close>

definition same_order :: "int list \<Rightarrow> int list \<Rightarrow> bool" where
  "same_order q s =
     (length s = length q
      \<and> (\<forall>a b. a < length q \<and> b < length q \<longrightarrow> (q ! a < q ! b) = (s ! a < s ! b)))"

lemma rank_in_nth_card:
  assumes "a < length s"
  shows "rank_in s (s ! a) = card {b. b < length s \<and> s ! b < s ! a}"
  by (simp add: rank_in_def length_filter_conv_card)

lemma standardize_same_order:
  assumes "is_perm q" and "distinct s" and "length s = length q"
  shows "standardize s = Inr q \<longleftrightarrow> same_order q s"
proof
  assume "standardize s = Inr q"
  with standardize_rank[OF assms(2)] have q: "q = map (\<lambda>x. int (rank_in s x)) s" by simp
  have "(q ! a < q ! b) = (s ! a < s ! b)" if "a < length q" "b < length q" for a b
  proof -
    from that assms(3) have ab: "a < length s" "b < length s" by simp_all
    then have qa: "q ! a = int (rank_in s (s ! a))" and qb: "q ! b = int (rank_in s (s ! b))"
      by (subst q, simp)+
    show ?thesis
    proof (cases "s ! a" "s ! b" rule: linorder_cases)
      case less
      with rank_in_strict_mono[of "s ! a" s "s ! b"] ab qa qb show ?thesis by simp
    next
      case equal
      with qa qb show ?thesis by simp
    next
      case greater
      with rank_in_strict_mono[of "s ! b" s "s ! a"] ab qa qb show ?thesis by simp
    qed
  qed
  with assms(3) show "same_order q s" by (simp add: same_order_def)
next
  assume so: "same_order q s"
  have "map (\<lambda>x. int (rank_in s x)) s = q"
  proof (rule nth_equalityI)
    show "length (map (\<lambda>x. int (rank_in s x)) s) = length q" using assms(3) by simp
  next
    fix a assume "a < length (map (\<lambda>x. int (rank_in s x)) s)"
    then have a: "a < length s" "a < length q" using assms(3) by simp_all
    have "{b. b < length s \<and> s ! b < s ! a} = {b. b < length q \<and> q ! b < q ! a}"
      using so a by (auto simp: same_order_def)
    then have "rank_in s (s ! a) = rank_in q (q ! a)"
      using a by (simp add: rank_in_nth_card)
    also have "int \<dots> = q ! a" using rank_in_perm[OF assms(1)] a by simp
    finally show "map (\<lambda>x. int (rank_in s x)) s ! a = q ! a" using a by simp
  qed
  with standardize_rank[OF assms(2)] show "standardize s = Inr q" by simp
qed

lemma occurs_in_subseq:
  "occurs_in q P \<longleftrightarrow> (\<exists>s. subseq s P \<and> same_order q s)"
proof
  assume "occurs_in q P"
  then obtain indices where e: "embedding q P indices 0" by (auto simp: occurs_in_def)
  let ?n = "length q"
  let ?idx = "map nat indices"
  from e have len: "length indices = ?n"
    and rng: "\<forall>a. a < ?n \<longrightarrow> 0 \<le> indices ! a \<and> indices ! a < int (length P)"
    and inc: "\<forall>a b. a < b \<and> b < ?n \<longrightarrow> indices ! a < indices ! b"
    and iso: "\<forall>a b. a < ?n \<and> b < ?n \<longrightarrow>
            (q ! a < q ! b) = (P ! nat (indices ! a) < P ! nat (indices ! b))"
    by (simp_all add: embedding_def)
  have "sorted_wrt (<) ?idx"
    unfolding sorted_wrt_iff_nth_less
  proof (intro allI impI)
    fix i j assume ij: "i < j" "j < length ?idx"
    with len have "i < ?n" "j < ?n" by simp_all
    with ij inc rng have "indices ! i < indices ! j" "0 \<le> indices ! i" by simp_all
    then have "nat (indices ! i) < nat (indices ! j)" by simp
    with \<open>i < ?n\<close> \<open>j < ?n\<close> len show "?idx ! i < ?idx ! j" by simp
  qed
  moreover have "\<forall>i \<in> set ?idx. i < length P"
    using len rng by (auto simp: in_set_conv_nth nat_less_iff)
  ultimately have "subseq (map ((!) P) ?idx) P" by (rule increasing_positions_subseq)
  moreover have "same_order q (map ((!) P) ?idx)"
    using len iso by (simp add: same_order_def)
  ultimately show "\<exists>s. subseq s P \<and> same_order q s" by blast
next
  assume "\<exists>s. subseq s P \<and> same_order q s"
  then obtain s where s: "subseq s P" "same_order q s" by blast
  from subseq_increasing_positions[OF s(1)] obtain idx where
    i: "sorted_wrt (<) idx" "\<forall>i \<in> set idx. i < length P" "s = map ((!) P) idx" by blast
  from s(2) i(3) have len: "length idx = length q" by (simp add: same_order_def)
  have "embedding q P (map int idx) 0"
    unfolding embedding_def
  proof (intro conjI allI impI)
    show "length (map int idx) = length q" using len by simp
  next
    fix a assume "0 \<le> a \<and> a < length q"
    then show "0 \<le> map int idx ! a" "map int idx ! a < int (length P)"
      using len i(2) by simp_all
  next
    fix a b assume "0 \<le> a \<and> a < b \<and> b < length q"
    then show "map int idx ! a < map int idx ! b"
      using len i(1) by (simp add: sorted_wrt_iff_nth_less)
  next
    fix a b assume ab: "0 \<le> a \<and> a < length q \<and> 0 \<le> b \<and> b < length q"
    with s(2) have "(q ! a < q ! b) = (s ! a < s ! b)" by (simp add: same_order_def)
    with ab len i(3)
    show "(q ! a < q ! b) = (P ! nat (map int idx ! a) < P ! nat (map int idx ! b))"
      by simp
  qed
  then show "occurs_in q P" unfolding occurs_in_def by blast
qed

lemma occurrences_loop_count:
  assumes "\<forall>s \<in> set xs. distinct s"
  shows "occurrences_loop xs pattern tot
     = Inr (tot + int (length (filter (\<lambda>s. standardize s = Inr pattern) xs)))"
  using assms
proof (induction xs arbitrary: tot)
  case Nil
  then show ?case by simp
next
  case (Cons s xs)
  from Cons.prems have "distinct s" by simp
  from standardize_rank[OF this] obtain r where r: "standardize s = Inr r" by blast
  with Cons show ?case by simp
qed

lemma occurrences_correct:
  assumes "distinct P" and "is_perm q"
  shows "\<exists>c. occurrences P q = Inr c \<and> (c \<noteq> 0) = occurs_in q P"
proof -
  let ?C = "combinations P (length q)"
  have d: "\<forall>s \<in> set ?C. distinct s"
    using assms(1) by (auto simp: combinations_subseq intro: subseq_keeps_distinct)
  let ?c = "int (length (filter (\<lambda>s. standardize s = Inr q) ?C))"
  from occurrences_loop_count[OF d] have o: "occurrences P q = Inr ?c"
    by (simp add: occurrences_def)
  have "(?c \<noteq> 0) = (\<exists>s \<in> set ?C. standardize s = Inr q)"
    by (simp add: filter_empty_conv)
  also have "\<dots> = (\<exists>s. subseq s P \<and> length s = length q \<and> standardize s = Inr q)"
    by (auto simp: combinations_subseq)
  also have "\<dots> = (\<exists>s. subseq s P \<and> same_order q s)"
  proof -
    have "(subseq s P \<and> length s = length q \<and> standardize s = Inr q)
        = (subseq s P \<and> same_order q s)" for s
    proof (cases "subseq s P \<and> length s = length q")
      case True
      then have "distinct s" using assms(1) by (auto intro: subseq_keeps_distinct)
      from standardize_same_order[OF assms(2) this] True show ?thesis by simp
    next
      case False
      then show ?thesis by (auto simp: same_order_def)
    qed
    then show ?thesis by simp
  qed
  also have "\<dots> = occurs_in q P" by (simp add: occurs_in_subseq)
  finally show ?thesis using o by blast
qed

text \<open>
  Claim C1.  For every host permutation \<open>P\<close> and every pattern permutation \<open>q\<close>,
  \<open>P.avoids(q)\<close> and \<open>P.occurrences(q)\<close> both return, and \<open>avoids\<close> is true exactly when
  the count is \<open>0\<close>: the pruned backtracking search and the enumeration of all
  subsequences agree on whether an order-isomorphic embedding of \<open>q\<close> into \<open>P\<close> exists.
\<close>

theorem avoids_iff_no_occurrence:
  assumes "is_perm P" and "is_perm q"
  shows "\<exists>b c. avoids P q 0 = Inr b \<and> occurrences P q = Inr c
           \<and> (b \<longleftrightarrow> c = 0) \<and> (b \<longleftrightarrow> \<not> occurs_in q P)"
proof -
  from assms(1) have d: "distinct P" by (simp add: is_perm_iff)
  from involved_in_correct[OF assms(2) d]
  have a: "avoids P q 0 = Inr (\<not> occurs_in q P)" by (simp add: avoids_def)
  from occurrences_correct[OF d assms(2)] obtain c where
    c: "occurrences P q = Inr c" "(c \<noteq> 0) = occurs_in q P" by blast
  from a c show ?thesis by auto
qed

text \<open>The docstring example: \<open>1 2 3 4 5 6\<close> avoids \<open>2 3 1\<close>.\<close>

theorem avoids_iff_no_occurrence_witness:
  "is_perm [0, 1, 2, 3, 4, 5] \<and> is_perm [1, 2, 0]
   \<and> avoids [0, 1, 2, 3, 4, 5] [1, 2, 0] 0 = Inr True
   \<and> occurrences [0, 1, 2, 3, 4, 5] [1, 2, 0] = Inr 0
   \<and> \<not> occurs_in [1, 2, 0] [0, 1, 2, 3, 4, 5]"
proof -
  have p: "is_perm [0, 1, 2, 3, 4, 5]" and q: "is_perm [1, 2, 0]"
    by (simp_all add: is_perm_def)
  have o: "occurrences [0, 1, 2, 3, 4, 5] [1, 2, 0] = Inr 0" by code_simp
  from avoids_iff_no_occurrence[OF p q] o p q show ?thesis by auto
qed


section \<open>What \<open>inflate\<close> builds\<close>

text \<open>
  The shift of the block of a base entry \<open>v\<close>: the total length of the components of
  all smaller base entries.  \<open>inflated\<close> is the flattened list of shifted blocks.
\<close>

definition weight_below :: "int list \<Rightarrow> int list list \<Rightarrow> int \<Rightarrow> int" where
  "weight_below base components v =
     sum_list (map (\<lambda>(b, c). if b < v then int (length c) else 0) (zip base components))"

definition inflated :: "int list \<Rightarrow> int list list \<Rightarrow> int list" where
  "inflated base components =
     concat (map (\<lambda>(b, c). map (\<lambda>u. u + weight_below base components b) c)
                 (zip base components))"

lemma sum_list_single:
  assumes "distinct L" and "pos < length L" and "length cs = length L"
  shows "sum_list (map (\<lambda>(b, c). if b = L ! pos then f c else (0::int)) (zip L cs)) = f (cs ! pos)"
  using assms
proof (induction L arbitrary: cs pos)
  case Nil
  then show ?case by simp
next
  case (Cons b0 L)
  then obtain c0 cs' where cs: "cs = c0 # cs'" by (cases cs) auto
  show ?case
  proof (cases pos)
    case 0
    have "sum_list (map (\<lambda>(b, c). if b = b0 then f c else 0) (zip L cs')) = 0"
    proof -
      have "\<forall>x \<in> set (zip L cs'). (case x of (b, c) \<Rightarrow> if b = b0 then f c else 0) = 0"
        using Cons.prems(1) by (auto dest: set_zip_leftD)
      then show ?thesis by (simp add: sum_list_0 cong: map_cong)
    qed
    with 0 cs show ?thesis by simp
  next
    case (Suc pos')
    with Cons.prems have "b0 \<noteq> L ! pos'" by auto
    with Suc cs Cons.IH[of pos' cs'] Cons.prems show ?thesis by simp
  qed
qed

lemma weight_below_Suc:
  assumes "distinct L" and "pos < length L" and "length cs = length L"
  shows "weight_below L cs (L ! pos + 1) = weight_below L cs (L ! pos) + int (length (cs ! pos))"
proof -
  let ?f1 = "\<lambda>x. case x of (b, c) \<Rightarrow> if b < L ! pos + 1 then int (length c) else 0"
  let ?f2 = "\<lambda>x. case x of (b, c) \<Rightarrow> if b < L ! pos then int (length c) else 0"
  let ?f3 = "\<lambda>x. case x of (b, c) \<Rightarrow> if b = L ! pos then int (length c) else 0"
  have "sum_list (map ?f1 (zip L cs)) = sum_list (map (\<lambda>x. ?f2 x + ?f3 x) (zip L cs))"
    by (intro arg_cong[where f = sum_list] map_cong refl) auto
  also have "\<dots> = sum_list (map ?f2 (zip L cs)) + sum_list (map ?f3 (zip L cs))"
    by (rule sum_list_addf)
  also have "sum_list (map ?f3 (zip L cs)) = int (length (cs ! pos))"
    by (rule sum_list_single[OF assms, of "\<lambda>c. int (length c)"])
  finally show ?thesis unfolding weight_below_def .
qed

lemma map_nth_plus: "map (\<lambda>i. xs ! i + c) [0..<length xs] = map (\<lambda>u. u + (c::int)) xs"
  by (rule nth_equalityI) simp_all

lemma map_zip_nth:
  assumes "length cs = length L"
  shows "map (\<lambda>idx. g (L ! idx) (cs ! idx)) [0..<length L] = map (\<lambda>(b, c). g b c) (zip L cs)"
  using assms by (intro nth_equalityI) simp_all

text \<open>The block that ends up at position \<open>idx\<close>.\<close>

definition block_at :: "int list \<Rightarrow> int list list \<Rightarrow> nat \<Rightarrow> int list" where
  "block_at L cs idx = map (\<lambda>u. u + weight_below L cs (L ! idx)) (cs ! idx)"

lemma inflate_loop_value:
  assumes "is_perm L" and "length cs = length L"
  shows "e \<le> length L \<Longrightarrow> length NL = length L \<Longrightarrow> cur = weight_below L cs (int e) \<Longrightarrow>
         (\<forall>idx. idx < length L \<longrightarrow>
            NL ! idx = (if L ! idx < int e then Inr (block_at L cs idx) else Inl (L ! idx))) \<Longrightarrow>
         inflate_loop [e..<length L] L cs NL cur
           = Inr (map (\<lambda>idx. Inr (block_at L cs idx)) [0..<length L])"
proof (induction "length L - e" arbitrary: e NL cur)
  case 0
  then have e: "e = length L" by simp
  have "NL = map (\<lambda>idx. Inr (block_at L cs idx)) [0..<length L]"
  proof (rule nth_equalityI)
    show "length NL = length (map (\<lambda>idx. Inr (block_at L cs idx)) [0..<length L])"
      using "0.prems"(2) by simp
  next
    fix idx assume "idx < length NL"
    then have i: "idx < length L" using "0.prems"(2) by simp
    then have "L ! idx < int (length L)" using is_perm_nth_range[OF assms(1)] by simp
    with i "0.prems"(4) e show "NL ! idx = map (\<lambda>idx. Inr (block_at L cs idx)) [0..<length L] ! idx"
      by simp
  qed
  with e show ?case by simp
next
  case (Suc d)
  then have el: "e < length L" by simp
  then have u: "[e..<length L] = e # [Suc e..<length L]" by (rule upt_conv_Cons)
  from assms(1) have dl: "distinct L" by (simp add: is_perm_iff)
  from el assms(1) have "int e \<in> set L" by (simp add: is_perm_iff_int)
  from py_index_found[OF this] obtain pos where
    pos: "py_index L (int e) = Inr pos" "pos < length L" "L ! pos = int e" by blast
  let ?NL = "NL[pos := Inr (map (\<lambda>i. cs ! pos ! i + cur) [0..<length (cs ! pos)])]"
  let ?cur = "cur + int (length (cs ! pos))"
  have step: "inflate_loop [e..<length L] L cs NL cur
      = inflate_loop [Suc e..<length L] L cs ?NL ?cur"
    unfolding u by (simp add: pos(1))
  have d: "d = length L - Suc e" using Suc.hyps(2) by simp
  have "inflate_loop [Suc e..<length L] L cs ?NL ?cur
      = Inr (map (\<lambda>idx. Inr (block_at L cs idx)) [0..<length L])"
  proof (rule Suc.hyps(1)[OF d])
    show "Suc e \<le> length L" using el by simp
    show "length ?NL = length L" using Suc.prems(2) by simp
    show "?cur = weight_below L cs (int (Suc e))"
      using weight_below_Suc[OF dl pos(2) assms(2)] pos(3) Suc.prems(3)
      by (simp add: add.commute)
    show "\<forall>idx. idx < length L \<longrightarrow>
        ?NL ! idx = (if L ! idx < int (Suc e) then Inr (block_at L cs idx) else Inl (L ! idx))"
    proof (intro allI impI)
      fix idx assume i: "idx < length L"
      show "?NL ! idx = (if L ! idx < int (Suc e) then Inr (block_at L cs idx) else Inl (L ! idx))"
      proof (cases "idx = pos")
        case True
        have "map (\<lambda>i. cs ! pos ! i + cur) [0..<length (cs ! pos)] = block_at L cs pos"
          unfolding block_at_def map_nth_plus using Suc.prems(3) pos(3) by simp
        with True i pos(3) Suc.prems(2) show ?thesis by simp
      next
        case False
        with dl i pos(2,3) have "L ! idx \<noteq> int e" by (metis nth_eq_iff_index_eq)
        then have "(L ! idx < int (Suc e)) = (L ! idx < int e)" by auto
        with False i Suc.prems(4) show ?thesis by simp
      qed
    qed
  qed
  with step show ?case by simp
qed

lemma weight_below_zero:
  assumes "\<forall>x \<in> set L. 0 \<le> x"
  shows "weight_below L cs 0 = 0"
proof -
  have "(case x of (b, c) \<Rightarrow> if b < 0 then int (length c) else 0) = 0"
    if "x \<in> set (zip L cs)" for x
  proof -
    obtain b c where x: "x = (b, c)" by (cases x)
    with that have "b \<in> set L" by (auto dest: set_zip_leftD)
    with assms have "\<not> b < 0" by auto
    with x show ?thesis by simp
  qed
  then have "map (\<lambda>x. case x of (b, c) \<Rightarrow> if b < 0 then int (length c) else 0) (zip L cs)
      = map (\<lambda>x. 0) (zip L cs)" by (intro map_cong refl)
  then show ?thesis unfolding weight_below_def by (simp only: sum_list_0)
qed

lemma flatten_blocks:
  "py_map (\<lambda>sl. case sl of Inl a \<Rightarrow> Inl TypeError | Inr l \<Rightarrow> Inr l) (map Inr xs) = Inr xs"
  by (induction xs) simp_all

lemma inflate_value:
  assumes "is_perm base" and "length components = length base"
  shows "inflate base components = standardize (inflated base components)"
proof -
  let ?n = "length base"
  from assms(1) have nn: "\<forall>x \<in> set base. 0 \<le> x" by (simp add: is_perm_iff_int)
  have a: "inflate_loop [0..<?n] base components (map Inl base) 0
      = Inr (map Inr (map (block_at base components) [0..<?n]))"
  proof -
    have "inflate_loop [0..<?n] base components (map Inl base) 0
      = Inr (map (\<lambda>idx. Inr (block_at base components idx)) [0..<?n])"
    proof (rule inflate_loop_value[OF assms])
      show "0 \<le> ?n" by simp
      show "length (map Inl base) = ?n" by simp
      show "0 = weight_below base components (int 0)" using weight_below_zero[OF nn] by simp
      show "\<forall>idx. idx < ?n \<longrightarrow> map Inl base ! idx
          = (if base ! idx < int 0 then Inr (block_at base components idx) else Inl (base ! idx))"
      proof (intro allI impI)
        fix idx assume i: "idx < ?n"
        then have "0 \<le> base ! idx" using nn by simp
        with i show "map Inl base ! idx
          = (if base ! idx < int 0 then Inr (block_at base components idx) else Inl (base ! idx))"
          by simp
      qed
    qed
    then show ?thesis by (simp add: comp_def)
  qed
  have c: "concat (map (block_at base components) [0..<?n]) = inflated base components"
    unfolding inflated_def block_at_def[abs_def]
    using map_zip_nth[OF assms(2), of "\<lambda>b c. map (\<lambda>u. u + weight_below base components b) c"]
    by simp
  have "inflate base components
      = py_bind (inflate_loop [0..<?n] base components (map Inl base) 0) (\<lambda>NL.
        py_bind (py_map (\<lambda>sl. case sl of Inl a \<Rightarrow> Inl TypeError | Inr l \<Rightarrow> Inr l) NL) (\<lambda>NLs.
          Permutation (concat NLs)))"
    using assms(2) by (simp add: inflate_def)
  also have "\<dots> = standardize (inflated base components)"
    by (simp only: a py_bind_Inr flatten_blocks c Permutation_list)
  finally show ?thesis .
qed


section \<open>Contracting an interval keeps the inflation\<close>

text \<open>The flattened blocks of some base entries under a given shift function.\<close>

definition blocks :: "(int \<Rightarrow> int) \<Rightarrow> int list \<Rightarrow> int list list \<Rightarrow> int list" where
  "blocks W bs cs = concat (map (\<lambda>(b, c). map (\<lambda>u. u + W b) c) (zip bs cs))"

lemma inflated_blocks: "inflated base cs = blocks (weight_below base cs) base cs"
  by (simp add: inflated_def blocks_def)

lemma blocks_append:
  "length bs1 = length cs1 \<Longrightarrow> blocks W (bs1 @ bs2) (cs1 @ cs2) = blocks W bs1 cs1 @ blocks W bs2 cs2"
  by (simp add: blocks_def)

lemma blocks_cong:
  assumes "\<And>b. b \<in> set bs \<Longrightarrow> W b = W' b"
  shows "blocks W bs cs = blocks W' bs cs"
  unfolding blocks_def using assms
  by (intro arg_cong[where f = concat] map_cong refl) (auto dest: set_zip_leftD)

lemma blocks_map:
  "blocks W (map r bs) cs = blocks (\<lambda>b. W (r b)) bs cs"
  by (simp add: blocks_def zip_map1 case_prod_unfold comp_def)

lemma blocks_singletons:
  "blocks W bs (replicate (length bs) [0]) = map W bs"
proof (induction bs)
  case Nil
  then show ?case by (simp add: blocks_def)
next
  case (Cons b bs)
  then show ?case by (simp add: blocks_def)
qed

lemma blocks_one: "blocks W [b] [c] = map (\<lambda>u. u + W b) c"
  by (simp add: blocks_def)

lemma blocks_Cons: "blocks W (b # bs) (c # cs) = map (\<lambda>u. u + W b) c @ blocks W bs cs"
  by (simp add: blocks_def)

lemma blocks_split3:
  assumes "length B1 = length C1" and "length BJ = length CJ"
  shows "blocks W (B1 @ BJ @ B2) (C1 @ CJ @ C2) = blocks W B1 C1 @ blocks W BJ CJ @ blocks W B2 C2"
  using assms by (simp add: blocks_def)

lemma weight_below_append:
  "length bs1 = length cs1 \<Longrightarrow>
     weight_below (bs1 @ bs2) (cs1 @ cs2) v = weight_below bs1 cs1 v + weight_below bs2 cs2 v"
  by (simp add: weight_below_def)

lemma weight_below_cong:
  assumes "\<And>b. b \<in> set bs \<Longrightarrow> (b < v) = (b < v')"
  shows "weight_below bs cs v = weight_below bs cs v'"
  unfolding weight_below_def using assms
  by (intro arg_cong[where f = sum_list] map_cong refl) (auto dest: set_zip_leftD)

lemma weight_below_map:
  assumes "\<And>b. b \<in> set bs \<Longrightarrow> (r b < r v) = (b < v)"
  shows "weight_below (map r bs) cs (r v) = weight_below bs cs v"
  unfolding weight_below_def zip_map1 map_map using assms
  by (intro arg_cong[where f = sum_list] map_cong refl) (auto dest: set_zip_leftD)

lemma weight_below_singletons:
  "weight_below bs (replicate (length bs) [0]) v = int (rank_in bs v)"
  by (induction bs) (simp_all add: weight_below_def rank_in_def)

lemma weight_below_one: "weight_below [b] [c] v = (if b < v then int (length c) else 0)"
  by (simp add: weight_below_def)

lemma rank_in_all_or_none:
  assumes "\<And>x. x \<in> set bs \<Longrightarrow> (x < v) = t"
  shows "int (rank_in bs v) = (if t then int (length bs) else 0)"
proof (cases t)
  case True
  with assms have "filter (\<lambda>y. y < v) bs = bs" by (simp add: filter_id_conv)
  with True show ?thesis by (simp add: rank_in_def)
next
  case False
  with assms have "filter (\<lambda>y. y < v) bs = []" by (simp add: filter_empty_conv)
  with False show ?thesis by (simp add: rank_in_def)
qed

text \<open>
  The base \<open>B1 @ BJ @ B2\<close> with singleton components on \<open>BJ\<close>, against the base in
  which \<open>BJ\<close> is replaced by its first entry and the component there is the pattern
  of \<open>BJ\<close>; \<open>r\<close> is the renumbering that standardization applies.
\<close>

lemma contraction_keeps_inflated:
  assumes d: "distinct (B1 @ BJ @ B2)" and ne: "BJ \<noteq> []"
    and l1: "length C1 = length B1"
    and K: "\<And>b x y. b \<in> set B1 \<union> set B2 \<Longrightarrow> x \<in> set BJ \<Longrightarrow> y \<in> set BJ \<Longrightarrow> (b < x) = (b < y)"
    and r: "\<And>x y. x \<in> set (B1 @ [hd BJ] @ B2) \<Longrightarrow> y \<in> set (B1 @ [hd BJ] @ B2) \<Longrightarrow>
              (r x < r y) = (x < y)"
  shows "inflated (map r (B1 @ [hd BJ] @ B2)) (C1 @ [map (\<lambda>x. int (rank_in BJ x)) BJ] @ C2)
       = inflated (B1 @ BJ @ B2) (C1 @ replicate (length BJ) [0] @ C2)"
proof -
  let ?h = "hd BJ"
  let ?raw = "B1 @ [?h] @ B2"
  let ?sJ = "map (\<lambda>x. int (rank_in BJ x)) BJ"
  let ?NC = "C1 @ [?sJ] @ C2"
  let ?C = "C1 @ replicate (length BJ) [0] @ C2"
  let ?W = "weight_below (B1 @ BJ @ B2) ?C"
  let ?W' = "weight_below (map r ?raw) ?NC"
  let ?i = "int (length BJ)"
  from ne have hJ: "?h \<in> set BJ" by simp
  have W: "?W v = weight_below B1 C1 v + int (rank_in BJ v) + weight_below B2 C2 v" for v
    using l1 by (simp add: weight_below_append weight_below_singletons)
  have W': "?W' (r v) = weight_below B1 C1 v + (if ?h < v then ?i else 0) + weight_below B2 C2 v"
    if "v \<in> set ?raw" for v
  proof -
    have "?W' (r v) = weight_below ?raw ?NC v"
      by (rule weight_below_map) (use r that in blast)
    also have "\<dots> = weight_below B1 C1 v + weight_below [?h] [?sJ] v + weight_below B2 C2 v"
      using l1 by (simp add: weight_below_def)
    finally show ?thesis by (simp add: weight_below_one)
  qed
  have out: "?W' (r b) = ?W b" if "b \<in> set B1 \<union> set B2" for b
  proof -
    from that have br: "b \<in> set ?raw" by auto
    have "(x < b) = (?h < b)" if x: "x \<in> set BJ" for x
    proof -
      from d \<open>b \<in> set B1 \<union> set B2\<close> x hJ have "b \<noteq> x" "b \<noteq> ?h" by auto
      moreover from K[OF \<open>b \<in> set B1 \<union> set B2\<close> x hJ] have "(b < x) = (b < ?h)" .
      ultimately show ?thesis by auto
    qed
    from rank_in_all_or_none[of BJ b "?h < b", OF this]
    have "int (rank_in BJ b) = (if ?h < b then ?i else 0)" by simp
    with W[of b] W'[OF br] show ?thesis by simp
  qed
  have mid: "?W x = int (rank_in BJ x) + ?W' (r ?h)" if "x \<in> set BJ" for x
  proof -
    have "weight_below B1 C1 x = weight_below B1 C1 ?h"
      by (rule weight_below_cong) (use K that hJ in blast)
    moreover have "weight_below B2 C2 x = weight_below B2 C2 ?h"
      by (rule weight_below_cong) (use K that hJ in blast)
    moreover have "?W' (r ?h) = weight_below B1 C1 ?h + weight_below B2 C2 ?h"
      using W'[of ?h] by simp
    ultimately show ?thesis using W[of x] by simp
  qed
  have "map r ?raw = map r B1 @ [r ?h] @ map r B2" by simp
  then have "inflated (map r ?raw) ?NC
      = blocks ?W' (map r B1) C1 @ blocks ?W' [r ?h] [?sJ] @ blocks ?W' (map r B2) C2"
    unfolding inflated_blocks using l1 by (simp only: blocks_split3 length_map list.size)
  also have "blocks ?W' (map r B1) C1 = blocks ?W B1 C1"
    unfolding blocks_map by (rule blocks_cong) (use out in simp)
  also have "blocks ?W' (map r B2) C2 = blocks ?W B2 C2"
    unfolding blocks_map by (rule blocks_cong) (use out in simp)
  also have "blocks ?W' [r ?h] [?sJ] = map ?W BJ"
    unfolding blocks_one using mid by (simp add: comp_def)
  also have "map ?W BJ = blocks ?W BJ (replicate (length BJ) [0])"
    by (rule blocks_singletons[symmetric])
  also have "blocks ?W B1 C1 @ blocks ?W BJ (replicate (length BJ) [0]) @ blocks ?W B2 C2
      = blocks ?W (B1 @ BJ @ B2) ?C"
    using l1 by (simp only: blocks_split3 length_replicate)
  finally show ?thesis by (simp only: inflated_blocks)
qed


section \<open>Intervals as convex sets of values\<close>

text \<open>A set \<open>W\<close> of values is convex in \<open>S\<close> when no value of \<open>S\<close> outside \<open>W\<close> lies
  between two values of \<open>W\<close>.\<close>

definition convex_in :: "int set \<Rightarrow> int set \<Rightarrow> bool" where
  "convex_in S W = (\<forall>u\<in>W. \<forall>w\<in>W. \<forall>v\<in>S. u < v \<and> v < w \<longrightarrow> v \<in> W)"

lemma contiguous_card:
  fixes W :: "int set"
  assumes "finite W" and "W \<noteq> {}"
  shows "Max W - Min W = int (card W) - 1 \<longleftrightarrow> W = {Min W..Max W}"
proof
  assume e: "W = {Min W..Max W}"
  have "Min W \<le> Max W" using assms by simp
  then have "int (card {Min W..Max W}) = Max W - Min W + 1" by simp
  with e show "Max W - Min W = int (card W) - 1" by simp
next
  assume h: "Max W - Min W = int (card W) - 1"
  have sub: "W \<subseteq> {Min W..Max W}" using assms by auto
  have "Min W \<le> Max W" using assms by simp
  then have "int (card {Min W..Max W}) = Max W - Min W + 1" by simp
  with h have "card W = card {Min W..Max W}" by simp
  with sub show "W = {Min W..Max W}" by (intro card_subset_eq) simp_all
qed

lemma slice_subset: "set (slice xs a b) \<subseteq> set xs"
  by (auto simp: slice_def dest: in_set_takeD in_set_dropD)

lemma slice_length: "b \<le> length xs \<Longrightarrow> length (slice xs a b) = b - a"
  by (simp add: slice_def)

lemma is_interval_convex:
  assumes p: "is_perm xs" and l: "1 \<le> l" and r: "a + l \<le> length xs"
  shows "is_interval xs a l \<longleftrightarrow> convex_in (set xs) (set (slice xs a (a + l)))"
proof -
  let ?W = "set (slice xs a (a + l))"
  from p have d: "distinct xs" and s: "set xs = {0..<int (length xs)}"
    by (simp_all add: is_perm_iff_int)
  have dl: "distinct (slice xs a (a + l))" using d by (rule slice_distinct)
  have len: "length (slice xs a (a + l)) = l" using r by (simp add: slice_length)
  have card: "card ?W = l" using distinct_card[OF dl] len by simp
  have ne: "?W \<noteq> {}" using l len by auto
  have sub: "?W \<subseteq> set xs" by (rule slice_subset)
  have mn: "Min ?W \<in> ?W" and mx: "Max ?W \<in> ?W" using ne by simp_all
  have "is_interval xs a l \<longleftrightarrow> ?W = {Min ?W..Max ?W}"
    unfolding is_interval_def using contiguous_card[of ?W] ne card by simp
  also have "\<dots> \<longleftrightarrow> convex_in (set xs) ?W"
  proof
    assume e: "?W = {Min ?W..Max ?W}"
    show "convex_in (set xs) ?W"
      unfolding convex_in_def
    proof (intro ballI impI)
      fix u w v assume "u \<in> ?W" "w \<in> ?W" "v \<in> set xs" "u < v \<and> v < w"
      then have "Min ?W \<le> u" "w \<le> Max ?W" "u < v" "v < w" by simp_all
      then have "v \<in> {Min ?W..Max ?W}" by auto
      with e show "v \<in> ?W" by blast
    qed
  next
    assume c: "convex_in (set xs) ?W"
    have "{Min ?W..Max ?W} \<subseteq> ?W"
    proof
      fix v assume v: "v \<in> {Min ?W..Max ?W}"
      from mn mx sub s have "0 \<le> Min ?W" "Max ?W < int (length xs)" by auto
      with v s have vs: "v \<in> set xs" by auto
      show "v \<in> ?W"
      proof (cases "v = Min ?W \<or> v = Max ?W")
        case True
        with mn mx show ?thesis by auto
      next
        case False
        with v have "Min ?W < v \<and> v < Max ?W" by auto
        with c mn mx vs show ?thesis unfolding convex_in_def by blast
      qed
    qed
    moreover have "?W \<subseteq> {Min ?W..Max ?W}" by auto
    ultimately show "?W = {Min ?W..Max ?W}" by blast
  qed
  finally show ?thesis .
qed

lemma convex_in_image:
  assumes r: "\<And>x y. x \<in> S \<Longrightarrow> y \<in> S \<Longrightarrow> (r x < r y) = (x < y)" and sub: "W \<subseteq> S"
  shows "convex_in (r ` S) (r ` W) \<longleftrightarrow> convex_in S W"
proof -
  have inj: "x = y" if "x \<in> S" "y \<in> S" "r x = r y" for x y
    using r[OF that(1,2)] r[OF that(2,1)] that(3) by (cases x y rule: linorder_cases) auto
  show ?thesis
  proof
    assume c: "convex_in (r ` S) (r ` W)"
    show "convex_in S W"
      unfolding convex_in_def
    proof (intro ballI impI)
      fix u w v assume u: "u \<in> W" and w: "w \<in> W" and v: "v \<in> S" and o: "u < v \<and> v < w"
      from u w sub have uS: "u \<in> S" and wS: "w \<in> S" by auto
      from o r[OF uS v] r[OF v wS] have "r u < r v \<and> r v < r w" by simp
      with c u w v have "r v \<in> r ` W" unfolding convex_in_def by blast
      then obtain v' where v': "v' \<in> W" "r v = r v'" by auto
      with sub have "v' \<in> S" by auto
      from inj[OF v this v'(2)] v'(1) show "v \<in> W" by simp
    qed
  next
    assume c: "convex_in S W"
    show "convex_in (r ` S) (r ` W)"
      unfolding convex_in_def
    proof (intro ballI impI)
      fix u w v assume "u \<in> r ` W" "w \<in> r ` W" "v \<in> r ` S" and o: "u < v \<and> v < w"
      then obtain u' w' v' where u: "u' \<in> W" "u = r u'" and w: "w' \<in> W" "w = r w'"
        and v: "v' \<in> S" "v = r v'" by auto
      from u w sub have uS: "u' \<in> S" and wS: "w' \<in> S" by auto
      from o r[OF uS v(1)] r[OF v(1) wS] u(2) v(2) w(2) have "u' < v' \<and> v' < w'" by simp
      with c u(1) w(1) v(1) have "v' \<in> W" unfolding convex_in_def by blast
      with v(2) show "v \<in> r ` W" by simp
    qed
  qed
qed

text \<open>Contracting a convex set \<open>I\<close> to one of its values \<open>h\<close>: convex sets of the
  contracted set of values come from convex sets of the full one.\<close>

lemma convex_in_outside:
  assumes I: "convex_in S I" and h: "h \<in> I" and W: "W \<subseteq> S - I"
    and c: "convex_in (insert h (S - I)) W"
  shows "convex_in S W"
  unfolding convex_in_def
proof (intro ballI impI)
  fix u w v assume u: "u \<in> W" and w: "w \<in> W" and v: "v \<in> S" and o: "u < v \<and> v < w"
  show "v \<in> W"
  proof (cases "v \<in> I")
    case False
    with v have "v \<in> insert h (S - I)" by simp
    with c u w o show ?thesis unfolding convex_in_def by blast
  next
    case True
    from u w W have uI: "u \<notin> I" "u \<in> S" and wI: "w \<notin> I" "w \<in> S" by auto
    have "u < h"
    proof (rule ccontr)
      assume "\<not> u < h"
      with h uI have "h < u" by (cases h u rule: linorder_cases) auto
      with I h True uI(2) o have "u \<in> I" unfolding convex_in_def by blast
      with uI show False by simp
    qed
    moreover have "h < w"
    proof (rule ccontr)
      assume "\<not> h < w"
      with h wI have "w < h" by (cases h w rule: linorder_cases) auto
      with I h True wI(2) o have "w \<in> I" unfolding convex_in_def by blast
      with wI show False by simp
    qed
    ultimately have "h \<in> W" using c u w unfolding convex_in_def by blast
    with W h show ?thesis by auto
  qed
qed

lemma convex_in_around:
  assumes I: "convex_in S I" and h: "h \<in> W" "h \<in> I" and W: "W \<subseteq> insert h (S - I)"
    and c: "convex_in (insert h (S - I)) W"
  shows "convex_in S (W \<union> I)"
  unfolding convex_in_def
proof (intro ballI impI)
  fix u w v assume u: "u \<in> W \<union> I" and w: "w \<in> W \<union> I" and v: "v \<in> S" and o: "u < v \<and> v < w"
  show "v \<in> W \<union> I"
  proof (cases "v \<in> I")
    case True
    then show ?thesis by simp
  next
    case False
    with v have vR: "v \<in> insert h (S - I)" by simp
    from False h have vh: "v \<noteq> h" by auto
    define u' where "u' = (if u \<in> I then h else u)"
    define w' where "w' = (if w \<in> I then h else w)"
    have u'W: "u' \<in> W" using u h by (auto simp: u'_def)
    have w'W: "w' \<in> W" using w h by (auto simp: w'_def)
    have "u' < v"
    proof (cases "u \<in> I")
      case uI: True
      have "h < v"
      proof (rule ccontr)
        assume "\<not> h < v"
        with vh have "v < h" by simp
        with I uI h(2) v o have "v \<in> I" unfolding convex_in_def by blast
        with False show False by simp
      qed
      with uI show ?thesis by (simp add: u'_def)
    next
      case False
      with o show ?thesis by (simp add: u'_def)
    qed
    moreover have "v < w'"
    proof (cases "w \<in> I")
      case wI: True
      have "v < h"
      proof (rule ccontr)
        assume "\<not> v < h"
        with vh have "h < v" by simp
        with I wI h(2) v o have "v \<in> I" unfolding convex_in_def by blast
        with False show False by simp
      qed
      with wI show ?thesis by (simp add: w'_def)
    next
      case False
      with o show ?thesis by (simp add: w'_def)
    qed
    ultimately have "v \<in> W" using c u'W w'W vR unfolding convex_in_def by blast
    then show ?thesis by simp
  qed
qed

lemma convex_in_separates:
  assumes I: "convex_in S I" and b: "b \<in> S" "b \<notin> I" and x: "x \<in> I" and y: "y \<in> I"
  shows "(b < x) = (b < y)"
proof -
  have k: "b < y'" if "b < x'" "x' \<in> I" "y' \<in> I" for x' y'
  proof (rule ccontr)
    assume "\<not> b < y'"
    with b that have "y' < b" by (cases y' b rule: linorder_cases) auto
    with I that b(1) have "b \<in> I" unfolding convex_in_def by blast
    with b show False by simp
  qed
  from k[OF _ x y] k[OF _ y x] show ?thesis by blast
qed


section \<open>Windows of the contracted base\<close>

lemma set_slice_nth:
  assumes "a + l \<le> length xs"
  shows "set (slice xs a (a + l)) = (!) xs ` {a..<a + l}"
proof -
  have "set (take l (drop a xs)) = (!) (drop a xs) ` {0..<l}"
    using assms by (intro nth_image[symmetric]) simp
  also have "\<dots> = (\<lambda>k. xs ! (a + k)) ` {0..<l}"
    using assms by (intro image_cong refl) simp
  also have "\<dots> = (!) xs ` ((\<lambda>k. a + k) ` {0..<l})" by (simp only: image_image)
  also have "(\<lambda>k. a + k) ` {0..<l} = {a..<a + l}"
    using image_add_atLeastLessThan[of a 0 l] by (simp add: add.commute)
  finally show ?thesis by (simp add: slice_def)
qed

lemma slice_all: "length xs = n \<Longrightarrow> slice xs 0 (0 + n) = xs"
  by (simp add: slice_def)

lemma slice_map: "slice (map f xs) a b = map f (slice xs a b)"
  by (simp add: slice_def take_map drop_map)

lemma contracted_nth:
  assumes "j + i \<le> length xs" and "1 \<le> i" and "t < Suc (length xs - i)"
  shows "(slice xs 0 j @ [y] @ slice xs (i + j) (length xs)) ! t
       = (if t < j then xs ! t else if t = j then y else xs ! (t + (i - 1)))"
proof -
  have l: "length (slice xs 0 j) = j" using assms by (simp add: slice_def)
  show ?thesis
  proof (cases "t < j")
    case True
    with l show ?thesis by (simp add: nth_append slice_def)
  next
    case False
    show ?thesis
    proof (cases "t = j")
      case True
      with l show ?thesis by (simp add: nth_append)
    next
      case ne: False
      with False have tj: "j < t" by simp
      then have "(slice xs 0 j @ [y] @ slice xs (i + j) (length xs)) ! t
          = slice xs (i + j) (length xs) ! (t - Suc j)"
        using l by (simp add: nth_append)
      also have "\<dots> = xs ! (i + j + (t - Suc j))"
        using assms tj by (simp add: slice_def)
      also have "i + j + (t - Suc j) = t + (i - 1)" using assms tj by simp
      finally show ?thesis using False ne by simp
    qed
  qed
qed

text \<open>The position in the base of the entry at position \<open>t\<close> of the contracted base.\<close>

definition uncontract :: "nat \<Rightarrow> nat \<Rightarrow> nat \<Rightarrow> nat" where
  "uncontract j i t = (if t \<le> j then t else t + (i - 1))"

lemma uncontract_before: "b \<le> Suc j \<Longrightarrow> uncontract j i ` {a..<b} = {a..<b}"
  by (auto simp: uncontract_def image_iff)

lemma uncontract_after:
  assumes "j < a"
  shows "uncontract j i ` {a..<b} = {a + (i - 1)..<b + (i - 1)}"
proof -
  have "uncontract j i ` {a..<b} = (\<lambda>t. t + (i - 1)) ` {a..<b}"
    using assms by (intro image_cong refl) (simp add: uncontract_def)
  then show ?thesis by (simp only: image_add_atLeastLessThan')
qed

lemma uncontract_around:
  assumes "a \<le> j" and "j < b"
  shows "uncontract j i ` {a..<b} = {a..j} \<union> {Suc j + (i - 1)..<b + (i - 1)}"
proof -
  from assms have "{a..<b} = {a..<Suc j} \<union> {Suc j..<b}" by auto
  then have "uncontract j i ` {a..<b}
      = uncontract j i ` {a..<Suc j} \<union> uncontract j i ` {Suc j..<b}"
    by (simp only: image_Un)
  also have "uncontract j i ` {a..<Suc j} = {a..j}"
    using uncontract_before[of "Suc j" j i a] by (simp add: atLeastLessThanSuc_atLeastAtMost)
  also have "uncontract j i ` {Suc j..<b} = {Suc j + (i - 1)..<b + (i - 1)}"
    by (rule uncontract_after) simp
  finally show ?thesis .
qed

lemma rank_in_order:
  assumes "x \<in> set L" and "y \<in> set L"
  shows "(int (rank_in L x) < int (rank_in L y)) = (x < y)"
  using rank_in_strict_mono[OF assms(1), of y] rank_in_strict_mono[OF assms(2), of x]
  by (cases x y rule: linorder_cases) auto

lemma new_base_window:
  assumes p: "is_perm base"
    and i2: "2 \<le> i" and ji: "j + i \<le> length base"
    and int: "is_interval base j i"
    and mx: "\<forall>i' j'. i < i' \<and> i' < length base \<and> j' + i' \<le> length base
               \<longrightarrow> \<not> is_interval base j' i'"
    and b: "standardize (slice base 0 j @ [base ! j] @ slice base (i + j) (length base)) = Inr b"
    and l2: "2 \<le> l" and ll: "l < length b" and al: "a + l \<le> length b"
    and w: "is_interval b a l"
  shows "(a + l \<le> j \<and> is_interval base a l) \<or> (j < a \<and> is_interval base (a + (i - 1)) l)"
proof -
  let ?n = "length base"
  let ?raw = "slice base 0 j @ [base ! j] @ slice base (i + j) ?n"
  let ?r = "\<lambda>x. int (rank_in ?raw x)"
  let ?S = "set base" and ?I = "set (slice base j (j + i))" and ?h = "base ! j"
  let ?V = "set (slice ?raw a (a + l))"
  let ?u = "uncontract j i"
  from p have d: "distinct base" by (rule is_perm_distinct)
  have dr: "distinct ?raw" using d ji i2 by (intro contracted_distinct) simp_all
  have bq: "b = map ?r ?raw" using standardize_rank[OF dr] b by simp
  have lr: "length ?raw = Suc (?n - i)" using ji by (rule contracted_length)
  have lb: "length b = Suc (?n - i)" using bq lr by simp
  have pb: "is_perm b" using dr b by (rule standardize_is_perm)
  have rawnth: "?raw ! t = base ! ?u t" if "t < Suc (?n - i)" for t
    using contracted_nth[OF ji _ that, of "base ! j"] i2 by (auto simp: uncontract_def)
  have inj: "inj_on ((!) base) {0..<?n}" using d by (intro inj_on_nth) simp_all
  have I: "?I = (!) base ` {j..<j + i}" using ji by (rule set_slice_nth)
  have S: "?S = (!) base ` {0..<?n}" by (simp add: nth_image[of ?n base, simplified])
  have win: "set (slice ?raw a' (a' + l')) = (!) base ` (?u ` {a'..<a' + l'})"
    if "a' + l' \<le> Suc (?n - i)" for a' l'
  proof -
    from that lr have "set (slice ?raw a' (a' + l')) = (!) ?raw ` {a'..<a' + l'}"
      by (intro set_slice_nth) simp
    also have "\<dots> = (\<lambda>t. base ! ?u t) ` {a'..<a' + l'}"
      using that by (intro image_cong refl rawnth) simp
    finally show ?thesis by (simp add: image_image)
  qed
  have "set ?raw = set (slice ?raw 0 (0 + Suc (?n - i)))" by (simp only: slice_all[OF lr])
  also have "\<dots> = (!) base ` (?u ` {0..<0 + Suc (?n - i)})" by (rule win) simp
  also have "?u ` {0..<0 + Suc (?n - i)} = {0..j} \<union> {Suc j + (i - 1)..<Suc (?n - i) + (i - 1)}"
    using ji i2 uncontract_around[of 0 j "Suc (?n - i)" i] by simp
  also have "\<dots> = insert j ({0..<?n} - {j..<j + i})" using ji i2 by auto
  finally have R: "set ?raw = insert ?h (?S - ?I)"
    unfolding S I using inj_on_image_set_diff[OF inj, of "{0..<?n}" "{j..<j + i}"] ji by simp
  have Icon: "convex_in ?S ?I" using is_interval_convex[OF p _ ji] int i2 by simp
  have hI: "?h \<in> ?I" unfolding I using i2 by auto
  have Vb: "set (slice b a (a + l)) = ?r ` ?V" unfolding bq slice_map by (simp only: set_map)
  have Sb: "set b = ?r ` set ?raw" unfolding bq by (simp only: set_map)
  have Vsub: "?V \<subseteq> set ?raw" by (rule slice_subset)
  from w al l2 have "convex_in (set b) (set (slice b a (a + l)))"
    using is_interval_convex[OF pb, of l a] by simp
  then have "convex_in (?r ` set ?raw) (?r ` ?V)" unfolding Vb Sb .
  then have cV: "convex_in (set ?raw) ?V"
    using convex_in_image[of "set ?raw" ?r ?V, OF rank_in_order Vsub] by blast
  have Vpos: "?V = (!) base ` (?u ` {a..<a + l})" using al lb by (intro win) simp
  have outside: "(!) base ` T \<subseteq> ?S - ?I" if "T \<subseteq> {0..<?n} - {j..<j + i}" for T
  proof -
    have "(!) base ` ({0..<?n} - {j..<j + i}) = ?S - ?I"
      unfolding S I using inj_on_image_set_diff[OF inj, of "{0..<?n}" "{j..<j + i}"] ji by simp
    with that show ?thesis by blast
  qed
  consider (before) "a + l \<le> j" | (after) "j < a" | (around) "a \<le> j" "j < a + l" by linarith
  then show ?thesis
  proof cases
    case before
    then have "?u ` {a..<a + l} = {a..<a + l}" by (intro uncontract_before) simp
    with Vpos have V: "?V = (!) base ` {a..<a + l}" by simp
    from before ji have al': "a + l \<le> ?n" by simp
    have V': "?V = set (slice base a (a + l))" unfolding V using al' by (rule set_slice_nth[symmetric])
    have "?V \<subseteq> ?S - ?I" unfolding V using before ji by (intro outside) auto
    from convex_in_outside[OF Icon hI this] cV R have "convex_in ?S ?V" by simp
    then have "is_interval base a l" unfolding V' using is_interval_convex[OF p _ al'] l2 by simp
    with before show ?thesis by simp
  next
    case after
    then have "?u ` {a..<a + l} = {a + (i - 1)..<a + l + (i - 1)}" by (rule uncontract_after)
    moreover have "a + l + (i - 1) = a + (i - 1) + l" by simp
    ultimately have V: "?V = (!) base ` {a + (i - 1)..<a + (i - 1) + l}"
      using Vpos by (simp only:)
    from al lb ji i2 have al': "a + (i - 1) + l \<le> ?n" by simp
    have V': "?V = set (slice base (a + (i - 1)) (a + (i - 1) + l))"
      unfolding V using al' by (rule set_slice_nth[symmetric])
    have "?V \<subseteq> ?S - ?I" unfolding V using after al' i2 by (intro outside) auto
    from convex_in_outside[OF Icon hI this] cV R have "convex_in ?S ?V" by simp
    then have "is_interval base (a + (i - 1)) l"
      unfolding V' using is_interval_convex[OF p _ al'] l2 by simp
    with after show ?thesis by simp
  next
    case around
    then have "?u ` {a..<a + l} = {a..j} \<union> {Suc j + (i - 1)..<a + l + (i - 1)}"
      by (rule uncontract_around)
    with Vpos have V: "?V = (!) base ` ({a..j} \<union> {Suc j + (i - 1)..<a + l + (i - 1)})" by simp
    from al lb ji i2 have al': "a + (l + (i - 1)) \<le> ?n" by simp
    have "{a..j} \<union> {Suc j + (i - 1)..<a + l + (i - 1)} \<union> {j..<j + i} = {a..<a + (l + (i - 1))}"
      using around i2 by auto
    then have "?V \<union> ?I = (!) base ` {a..<a + (l + (i - 1))}"
      unfolding V I by (simp only: image_Un[symmetric])
    also have "\<dots> = set (slice base a (a + (l + (i - 1))))"
      using al' by (rule set_slice_nth[symmetric])
    finally have VI: "?V \<union> ?I = set (slice base a (a + (l + (i - 1))))" .
    have hV: "?h \<in> ?V" unfolding V using around by auto
    from Vsub R have Vs: "?V \<subseteq> insert ?h (?S - ?I)" by simp
    from convex_in_around[OF Icon hV hI Vs] cV R have "convex_in ?S (?V \<union> ?I)" by simp
    then have "is_interval base a (l + (i - 1))"
      unfolding VI using is_interval_convex[OF p _ al'] l2 by simp
    moreover from l2 i2 ll lb ji have "i < l + (i - 1) \<and> l + (i - 1) < ?n" by arith
    ultimately show ?thesis using mx al' by blast
  qed
qed


section \<open>The loop of \<open>decomposition\<close> keeps the inflation\<close>

text \<open>Every window of the base that is a proper interval lies over singleton components:
  the loop has contracted nothing inside it.\<close>

definition intervals_untouched :: "int list \<Rightarrow> int list list \<Rightarrow> bool" where
  "intervals_untouched base comps =
     (\<forall>a l. 2 \<le> l \<and> l < length base \<and> a + l \<le> length base \<and> is_interval base a l
        \<longrightarrow> (\<forall>t. a \<le> t \<and> t < a + l \<longrightarrow> comps ! t = [0]))"

lemma slice_split3:
  assumes "j + i \<le> length xs"
  shows "xs = slice xs 0 j @ slice xs j (j + i) @ slice xs (i + j) (length xs)"
proof -
  have "take i (drop j xs) @ drop i (drop j xs) = drop j xs" by (rule append_take_drop_id)
  then have "take i (drop j xs) @ drop (i + j) xs = drop j xs" by simp
  then have "take j xs @ take i (drop j xs) @ drop (i + j) xs = xs" by simp
  then show ?thesis by (simp add: slice_def)
qed

lemma slice_nth: "a + k < b \<Longrightarrow> b \<le> length xs \<Longrightarrow> slice xs a b ! k = xs ! (a + k)"
  by (simp add: slice_def)

lemma slice_hd: "a < b \<Longrightarrow> b \<le> length xs \<Longrightarrow> hd (slice xs a b) = xs ! a"
  using slice_nth[of a 0 b xs] slice_nonempty[of a b xs] by (simp add: hd_conv_nth)

lemma slice_singletons:
  fixes comps :: "int list list"
  assumes "j + i \<le> length comps" and "\<forall>t. j \<le> t \<and> t < j + i \<longrightarrow> comps ! t = [0]"
  shows "slice comps j (j + i) = replicate i [0]"
proof (rule nth_equalityI)
  show "length (slice comps j (j + i)) = length (replicate i [0::int])"
    using assms(1) by (simp add: slice_def)
next
  fix k assume "k < length (slice comps j (j + i))"
  with assms(1) have k: "k < i" by (simp add: slice_def)
  with assms(1) have "slice comps j (j + i) ! k = comps ! (j + k)" by (intro slice_nth) simp_all
  with assms(2) k show "slice comps j (j + i) ! k = replicate i [0] ! k" by simp
qed

lemma decomposition_step:
  assumes p: "is_perm base" and lc: "length comps = length base"
    and un: "intervals_untouched base comps"
    and ns: "\<not> is_simple base"
    and mi: "maximal_interval base = (i, j)"
    and c: "standardize (slice base j (i + j)) = Inr c"
    and b: "standardize (slice base 0 j @ [base ! j] @ slice base (i + j) (length base)) = Inr b"
  shows "is_perm b"
    and "length (slice comps 0 j @ [c] @ slice comps (i + j) (length base)) = length b"
    and "inflated b (slice comps 0 j @ [c] @ slice comps (i + j) (length base))
           = inflated base comps"
    and "intervals_untouched b (slice comps 0 j @ [c] @ slice comps (i + j) (length base))"
proof -
  let ?n = "length base"
  let ?B1 = "slice base 0 j" and ?BJ = "slice base j (j + i)" and ?B2 = "slice base (i + j) ?n"
  let ?C1 = "slice comps 0 j" and ?C2 = "slice comps (i + j) ?n"
  let ?raw = "?B1 @ [base ! j] @ ?B2"
  let ?r = "\<lambda>x. int (rank_in ?raw x)"
  let ?nc = "?C1 @ [c] @ ?C2"
  from p have d: "distinct base" by (rule is_perm_distinct)
  from ns have "\<not> no_interval base" by (simp add: is_simple_iff)
  then have f: "2 \<le> i" "i < ?n" "j + i \<le> ?n" "is_interval base j i"
      "\<forall>i' j'. i < i' \<and> i' < ?n \<and> j' + i' \<le> ?n \<longrightarrow> \<not> is_interval base j' i'"
    using mi by (cases base rule: maximal_interval_cases; simp)+
  have dr: "distinct ?raw" using d f(1,3) by (intro contracted_distinct) simp_all
  have bq: "b = map ?r ?raw" using standardize_rank[OF dr] b by simp
  have lb: "length b = Suc (?n - i)" using bq contracted_length[OF f(3), of "base ! j"] by simp
  show pb: "is_perm b" using dr b by (rule standardize_is_perm)
  show lnc: "length ?nc = length b"
    using contracted_length[of j i comps c] f(3) lc lb by simp
  have split: "base = ?B1 @ ?BJ @ ?B2" using f(3) by (rule slice_split3)
  have hd: "hd ?BJ = base ! j" using f(1,3) by (intro slice_hd) simp_all
  have ne: "?BJ \<noteq> []" using f(1,3) by (intro slice_nonempty) simp_all
  have lBJ: "length ?BJ = i" using f(3) by (simp add: slice_def)
  have dJ: "distinct ?BJ" using d by (rule slice_distinct)
  have cq: "c = map (\<lambda>x. int (rank_in ?BJ x)) ?BJ"
    using standardize_rank[OF dJ] c by (simp add: add.commute)
  have CJ: "slice comps j (j + i) = replicate (length ?BJ) [0]"
    unfolding lBJ
  proof (rule slice_singletons)
    show "j + i \<le> length comps" using f(3) lc by simp
    from un f show "\<forall>t. j \<le> t \<and> t < j + i \<longrightarrow> comps ! t = [0]"
      unfolding intervals_untouched_def by blast
  qed
  have csplit: "comps = ?C1 @ replicate (length ?BJ) [0] @ ?C2"
    using slice_split3[of j i comps] f(3) lc CJ by simp
  have Icon: "convex_in (set base) (set ?BJ)"
    using is_interval_convex[OF p _ f(3)] f(1,4) by simp
  have dsplit: "distinct (?B1 @ ?BJ @ ?B2)" using d split by simp
  have "inflated (map ?r (?B1 @ [hd ?BJ] @ ?B2)) (?C1 @ [map (\<lambda>x. int (rank_in ?BJ x)) ?BJ] @ ?C2)
      = inflated (?B1 @ ?BJ @ ?B2) (?C1 @ replicate (length ?BJ) [0] @ ?C2)"
  proof (rule contraction_keeps_inflated[OF dsplit ne])
    show "length ?C1 = length ?B1" using f(3) lc by (simp add: slice_def)
  next
    fix v x y assume v: "v \<in> set ?B1 \<union> set ?B2" and x: "x \<in> set ?BJ" and y: "y \<in> set ?BJ"
    from v slice_subset have vS: "v \<in> set base" by fast
    from v dsplit have "v \<notin> set ?BJ" by auto
    from convex_in_separates[OF Icon vS this x y] show "(v < x) = (v < y)" .
  next
    fix x y assume "x \<in> set (?B1 @ [hd ?BJ] @ ?B2)" "y \<in> set (?B1 @ [hd ?BJ] @ ?B2)"
    then have "x \<in> set ?raw" "y \<in> set ?raw" unfolding hd by simp_all
    then show "(?r x < ?r y) = (x < y)" by (rule rank_in_order)
  qed
  then show "inflated b ?nc = inflated base comps"
    unfolding hd bq[symmetric] cq[symmetric] split[symmetric] csplit[symmetric] .
  show "intervals_untouched b ?nc"
    unfolding intervals_untouched_def
  proof (intro allI impI)
    fix a l t
    assume w: "2 \<le> l \<and> l < length b \<and> a + l \<le> length b \<and> is_interval b a l"
      and t: "a \<le> t \<and> t < a + l"
    from t w lb have tl: "t < Suc (length comps - i)" using lc by simp
    have nth: "?nc ! t = (if t < j then comps ! t else if t = j then c else comps ! (t + (i - 1)))"
      using contracted_nth[of j i comps t c] f(1,3) lc tl by simp
    from new_base_window[OF p f(1,3,4,5) b, of l a] w
    consider "a + l \<le> j" "is_interval base a l" | "j < a" "is_interval base (a + (i - 1)) l"
      by blast
    then show "?nc ! t = [0]"
    proof cases
      case 1
      from w lb f have "2 \<le> l \<and> l < ?n \<and> a + l \<le> ?n" using 1(1) by arith
      with un 1(2) t have "comps ! t = [0]" unfolding intervals_untouched_def by blast
      with nth t 1(1) show ?thesis by simp
    next
      case 2
      from w lb f(1,2,3) have "2 \<le> l \<and> l < ?n \<and> a + (i - 1) + l \<le> ?n" by arith
      moreover from t have "a + (i - 1) \<le> t + (i - 1) \<and> t + (i - 1) < a + (i - 1) + l" by simp
      ultimately have "comps ! (t + (i - 1)) = [0]"
        using un 2(2) unfolding intervals_untouched_def by blast
      with nth t 2(1) show ?thesis by simp
    qed
  qed
qed

lemma decomposition_while_inflated:
  assumes "is_perm base" and "length comps = length base" and "intervals_untouched base comps"
  shows "\<exists>b c. decomposition_while base comps = Inr (b, c) \<and> is_simple b \<and> is_perm b
                 \<and> length c = length b \<and> inflated b c = inflated base comps"
  using assms
proof (induction "length base" arbitrary: base comps rule: less_induct)
  case less
  show ?case
  proof (cases "is_simple base")
    case True
    with less.prems show ?thesis by (subst decomposition_while.simps) simp
  next
    case False
    obtain i j where mi: "maximal_interval base = (i, j)" by (cases "maximal_interval base")
    from not_simple_maximal_interval[OF False] mi have i2: "2 \<le> i" by simp
    from maximal_interval_range[OF mi] i2 have rg: "i < length base" "i + j \<le> length base"
      by simp_all
    let ?interval = "slice base j (i + j)"
    let ?new_base = "slice base 0 j @ [base ! j] @ slice base (i + j) (length base)"
    from less.prems(1) have d: "distinct base" by (rule is_perm_distinct)
    from standardize_rank[OF slice_distinct[OF d]]
    obtain c where c: "standardize ?interval = Inr c" by blast
    have dn: "distinct ?new_base"
      using d rg i2 by (intro contracted_distinct) simp_all
    from standardize_rank[OF dn] obtain b where b: "standardize ?new_base = Inr b" by blast
    let ?new_components = "slice comps 0 j @ [c] @ slice comps (i + j) (length base)"
    note step = decomposition_step[OF less.prems(1,2,3) False mi c b]
    have "length b = Suc (length base - i)"
      using standardize_length[OF b] rg contracted_length[of j i base "base ! j"]
      by (simp add: add.commute)
    then have "length b < length base" using i2 rg by simp
    from less.hyps[OF this step(1,2,4)]
    have "\<exists>b' c'. decomposition_while b ?new_components = Inr (b', c')
        \<and> is_simple b' \<and> is_perm b' \<and> length c' = length b'
        \<and> inflated b' c' = inflated base comps"
      unfolding step(3) .
    then show ?thesis
      unfolding decomposition_while_unfold[OF False less.prems(2) mi c b] .
  qed
qed

lemma inflated_singletons:
  assumes "is_perm p"
  shows "inflated p (replicate (length p) [0]) = p"
proof -
  have "inflated p (replicate (length p) [0])
      = map (weight_below p (replicate (length p) [0])) p"
    by (simp only: inflated_blocks blocks_singletons)
  also have "\<dots> = map (\<lambda>x. int (rank_in p x)) p"
    by (rule map_cong[OF refl]) (rule weight_below_singletons)
  also have "\<dots> = p" using rank_in_perm[OF assms] by (simp add: map_idI)
  finally show ?thesis .
qed

text \<open>
  Claim C2.  For every permutation \<open>p\<close>, \<open>p.decomposition()\<close> returns a pair
  \<open>(base, components)\<close>, \<open>base.inflate(components)\<close> returns \<open>p\<close> itself, and the base
  is simple: \<open>base.is_simple()\<close> is true, and the base is a permutation none of whose
  windows of \<open>2\<close> to \<open>len(base) - 1\<close> entries is an interval.
\<close>

theorem decomposition_inflate_round_trip:
  assumes "is_perm p"
  shows "\<exists>base components. decomposition p = Inr (base, components)
           \<and> inflate base components = Inr p
           \<and> is_simple base \<and> is_perm base
           \<and> (\<forall>i j. 2 \<le> i \<and> i < length base \<and> j + i \<le> length base
                  \<longrightarrow> \<not> is_interval base j i)"
proof -
  let ?ones = "replicate (length p) [0::int]"
  have "decomposition p = decomposition_while p ?ones"
    by (simp add: decomposition_def Permutation_perm_arg singleton_components)
  moreover have "intervals_untouched p ?ones"
    by (simp add: intervals_untouched_def)
  ultimately obtain b c where r: "decomposition p = Inr (b, c)" "is_simple b" "is_perm b"
      "length c = length b" "inflated b c = inflated p ?ones"
    using decomposition_while_inflated[OF assms, of ?ones] by auto
  from r(5) have "inflated b c = p" by (simp only: inflated_singletons[OF assms])
  with inflate_value[OF r(3,4)] have i: "inflate b c = Inr p"
    by (simp add: standardize_perm[OF assms])
  from r(2) have "\<forall>i j. 2 \<le> i \<and> i < length b \<and> j + i \<le> length b \<longrightarrow> \<not> is_interval b j i"
    by (simp add: is_simple_iff no_interval_def)
  with r(1,2,3) i show ?thesis by blast
qed

text \<open>The round trip at \<open>2 4 1 3 5\<close>: the base is \<open>1 2\<close>, with components \<open>2 4 1 3\<close>
  and \<open>1\<close>.\<close>

theorem decomposition_inflate_round_trip_witness:
  "is_perm [1, 3, 0, 2, 4]
   \<and> (\<exists>base components. decomposition [1, 3, 0, 2, 4] = Inr (base, components)
         \<and> inflate base components = Inr [1, 3, 0, 2, 4]
         \<and> is_simple base \<and> is_perm base
         \<and> (\<forall>i j. 2 \<le> i \<and> i < length base \<and> j + i \<le> length base
                \<longrightarrow> \<not> is_interval base j i))"
proof -
  have h: "is_perm [1, 3, 0, 2, 4]" by (simp add: is_perm_def)
  from decomposition_inflate_round_trip[OF h] h show ?thesis by simp
qed

end
